theory Spec2Isabelle
  imports Complex_Main "HOL-Library.Multiset" "HOL-Library.Monad_Syntax"
begin

section \<open>Housie tickets: generator, validator and grid reconstruction\<close>

text \<open>
  The development embeds \<^verbatim>\<open>src/utils/ticketGenerator.ts\<close> (the generator, its
  self-check and \<^verbatim>\<open>convertFlatToGrid\<close>), \<^verbatim>\<open>src/utils/fixExistingTickets.ts\<close>
  (\<^verbatim>\<open>validateExistingTicket\<close>) and the two helpers of the admin component
  (\<^verbatim>\<open>validateTicketFormat\<close>, and the grid that \<^verbatim>\<open>analyzeTicket\<close> lays out).

  JavaScript numbers are modelled by their value: the integers of a ticket as \<open>int\<close>, the
  entries of an arbitrary candidate as \<open>rat\<close> (a candidate read from JSON holds finite
  numbers only). A thrown \<^verbatim>\<open>Error\<close> is a value of type \<open>error\<close>; a loop that the
  source does not bound returns \<open>None\<close> when it does not terminate.
\<close>

subsection \<open>Decimal rendering of template literals\<close>

text \<open>
  \<^verbatim>\<open>`${n}`\<close> for an array length, a counter or a small integer prints its decimal digits.
\<close>

definition digitChar :: "nat \<Rightarrow> char" where
  "digitChar d = ''0123456789'' ! d"

fun showNat :: "nat \<Rightarrow> string" where
  "showNat n = (if n < 10 then [digitChar n] else showNat (n div 10) @ [digitChar (n mod 10)])"

declare showNat.simps [simp del]

definition showInt :: "int \<Rightarrow> string" where
  "showInt i = (if i < 0 then CHR ''-'' # showNat (nat (- i)) else showNat (nat i))"

subsection \<open>Errors and the random source\<close>

datatype error = Error string | TypeError string | SyntaxError string

text \<open>
  \<^verbatim>\<open>Math.random()\<close> is a sequence of numbers in \<open>[0, 1)\<close>; the state counts the calls made
  so far, so the \<open>k\<close>-th call returns \<open>rnd k\<close>.
\<close>

type_synonym random = "nat \<Rightarrow> rat"

definition validRandom :: "random \<Rightarrow> bool" where
  "validRandom rnd = (\<forall>k. 0 \<le> rnd k \<and> rnd k < 1)"

subsection \<open>The column table\<close>

definition columnRanges :: "(int \<times> int) list" where
  "columnRanges =
     [(1, 9), (10, 19), (20, 29), (30, 39), (40, 49), (50, 59), (60, 69), (70, 79), (80, 90)]"

subsection \<open>generateHousieTicket: choosing the numbers of each column\<close>

record gen_state =
  columnCounts :: "int list"
  columnNumbers :: "int list list"
  totalNumbers :: int
  columnsToUse :: "nat set"
  calls :: nat

definition initialState :: gen_state where
  "initialState =
     \<lparr>columnCounts = replicate 9 0, columnNumbers = replicate 9 [], totalNumbers = 0,
      columnsToUse = {}, calls = 0\<rparr>"

text \<open>
  \<^verbatim>\<open>shuffleArray\<close>: \<^verbatim>\<open>for (let i = array.length - 1; i > 0; i--)\<close>, drawing
  \<^verbatim>\<open>j = Math.floor(Math.random() * (i + 1))\<close> and swapping the entries \<open>i\<close> and \<open>j\<close>.
\<close>

fun shuffleFrom :: "random \<Rightarrow> nat \<Rightarrow> 'a list \<times> nat \<Rightarrow> 'a list \<times> nat" where
  "shuffleFrom rnd 0 (array, k) = (array, k)"
| "shuffleFrom rnd (Suc i) (array, k) =
     (let j = nat \<lfloor>rnd k * of_nat (Suc i + 1)\<rfloor>
      in shuffleFrom rnd i (array[Suc i := array ! j, j := array ! Suc i], Suc k))"

definition shuffleArray :: "random \<Rightarrow> 'a list \<times> nat \<Rightarrow> 'a list \<times> nat" where
  "shuffleArray rnd ak = shuffleFrom rnd (length (fst ak) - 1) ak"

text \<open>The numbers of column \<open>col\<close>'s range that the column does not hold yet.\<close>

definition availableNumbers :: "gen_state \<Rightarrow> nat \<Rightarrow> int list" where
  "availableNumbers s col =
     filter (\<lambda>n. n \<notin> set (columnNumbers s ! col))
       [fst (columnRanges ! col) .. snd (columnRanges ! col)]"

text \<open>
  The body of the first sweep for a column with \<^verbatim>\<open>columnCounts[col] < 3\<close>: a batch of one or
  two numbers, capped by the column's and the ticket's remaining room.
\<close>

definition addBatch :: "random \<Rightarrow> nat \<Rightarrow> gen_state \<Rightarrow> gen_state" where
  "addBatch rnd col s =
     (let canAdd = min (3 - columnCounts s ! col) (15 - totalNumbers s);
          numbersToAdd = min canAdd (\<lfloor>rnd (calls s) * 2\<rfloor> + 1);
          avail = availableNumbers s col
      in if numbersToAdd \<le> int (length avail) then
           (let shuffled = shuffleArray rnd (avail, Suc (calls s));
                selectedNumbers = sort (take (nat numbersToAdd) (fst shuffled))
            in s\<lparr>columnCounts := (columnCounts s)[col := columnCounts s ! col + numbersToAdd],
                 columnNumbers := (columnNumbers s)[col := columnNumbers s ! col @ selectedNumbers],
                 totalNumbers := totalNumbers s + numbersToAdd,
                 columnsToUse := insert col (columnsToUse s),
                 calls := snd shuffled\<rparr>)
         else
           s\<lparr>columnCounts :=
               (columnCounts s)[col := columnCounts s ! col + numbersToAdd
                                        - (numbersToAdd - int (length avail))],
             columnNumbers := (columnNumbers s)[col := columnNumbers s ! col @ sort avail],
             totalNumbers := totalNumbers s + numbersToAdd - (numbersToAdd - int (length avail)),
             columnsToUse := insert col (columnsToUse s),
             calls := Suc (calls s)\<rparr>)"

text \<open>\<^verbatim>\<open>for (let col = 0; col < 9 && totalNumbers < targetNumbers; col++)\<close>\<close>

function sweepColumns :: "random \<Rightarrow> nat \<Rightarrow> gen_state \<Rightarrow> gen_state" where
  "sweepColumns rnd col s =
     (if col < 9 \<and> totalNumbers s < 15
      then sweepColumns rnd (Suc col) (if columnCounts s ! col < 3 then addBatch rnd col s else s)
      else s)"
  by pat_completeness auto
termination
  by (relation "measure (\<lambda>(rnd, col, s). 9 - col)") auto

declare sweepColumns.simps [simp del]

text \<open>
  \<^verbatim>\<open>while (totalNumbers < targetNumbers) { sweep; if (columnsToUse.size === 9) break; }\<close>
\<close>

partial_function (option) distributeLoop :: "random \<Rightarrow> gen_state \<Rightarrow> gen_state option" where
  "distributeLoop rnd s =
     (if totalNumbers s < 15
      then (if card (columnsToUse (sweepColumns rnd 0 s)) = 9
            then Some (sweepColumns rnd 0 s)
            else distributeLoop rnd (sweepColumns rnd 0 s))
      else Some s)"

declare distributeLoop.simps [code]

text \<open>
  The second pass: the first column with room and an unused number takes one more number,
  chosen at \<^verbatim>\<open>Math.floor(Math.random() * availableNumbers.length)\<close>, and the \<^verbatim>\<open>for\<close> loop
  breaks.
\<close>

definition addOne :: "random \<Rightarrow> nat \<Rightarrow> gen_state \<Rightarrow> gen_state" where
  "addOne rnd col s =
     (let avail = availableNumbers s col;
          randomNum = avail ! nat \<lfloor>rnd (calls s) * of_nat (length avail)\<rfloor>
      in s\<lparr>columnCounts := (columnCounts s)[col := columnCounts s ! col + 1],
           columnNumbers := (columnNumbers s)[col := sort (columnNumbers s ! col @ [randomNum])],
           totalNumbers := totalNumbers s + 1,
           calls := Suc (calls s)\<rparr>)"

function fillScan :: "random \<Rightarrow> nat \<Rightarrow> gen_state \<Rightarrow> gen_state" where
  "fillScan rnd col s =
     (if col < 9
      then (if columnCounts s ! col < 3 \<and> totalNumbers s < 15 \<and> 0 < length (availableNumbers s col)
            then addOne rnd col s
            else fillScan rnd (Suc col) s)
      else s)"
  by pat_completeness auto
termination
  by (relation "measure (\<lambda>(rnd, col, s). 9 - col)") auto

declare fillScan.simps [simp del]

partial_function (option) fillLoop :: "random \<Rightarrow> gen_state \<Rightarrow> gen_state option" where
  "fillLoop rnd s = (if totalNumbers s < 15 then fillLoop rnd (fillScan rnd 0 s) else Some s)"

declare fillLoop.simps [code]

text \<open>
  The third pass: while there are more than 15 numbers, the first non-empty column loses its
  last number.
\<close>

function trimScan :: "nat \<Rightarrow> gen_state \<Rightarrow> gen_state" where
  "trimScan col s =
     (if col < 9
      then (if 0 < length (columnNumbers s ! col) \<and> 15 < totalNumbers s
            then s\<lparr>columnCounts := (columnCounts s)[col := columnCounts s ! col - 1],
                   columnNumbers := (columnNumbers s)[col := butlast (columnNumbers s ! col)],
                   totalNumbers := totalNumbers s - 1\<rparr>
            else trimScan (Suc col) s)
      else s)"
  by pat_completeness auto
termination
  by (relation "measure (\<lambda>(col, s). 9 - col)") auto

declare trimScan.simps [simp del]

partial_function (option) trimLoop :: "gen_state \<Rightarrow> gen_state option" where
  "trimLoop s = (if 15 < totalNumbers s then trimLoop (trimScan 0 s) else Some s)"

declare trimLoop.simps [code]

subsection \<open>generateHousieTicket: placing the numbers in rows\<close>

text \<open>
  A grid is a list of rows; a cell holds a number, and \<open>0\<close> is the empty cell. The
  generator's cells are integers; the grid laid out from a stored list holds that list's
  numbers.
\<close>

type_synonym 'a grid = "'a list list"

definition emptyGrid :: "'a::zero grid" where
  "emptyGrid = replicate 3 (replicate 9 0)"

text \<open>
  The numbers tagged with their column, in column order; \<^verbatim>\<open>Array.prototype.sort\<close> is
  stable, as \<open>sort_key\<close> is.
\<close>

definition allNumbers :: "'a list list \<Rightarrow> ('a \<times> nat) list" where
  "allNumbers cols =
     sort_key snd (concat (map (\<lambda>col. map (\<lambda>num. (num, col)) (cols ! col)) [0..<9]))"

text \<open>
  The scan for \<^verbatim>\<open>bestRow\<close> (\<open>None\<close> is the source's \<open>-1\<close>): a row qualifies when it holds
  fewer than 5 numbers and its cell in this column is empty; it replaces the best row so far
  only when it holds strictly fewer numbers.
\<close>

definition betterRow ::
  "'a::zero grid \<Rightarrow> nat list \<Rightarrow> nat \<Rightarrow> nat option \<Rightarrow> nat \<Rightarrow> nat option" where
  "betterRow g rowCounts col bestRow row =
     (if rowCounts ! row < 5 \<and> g ! row ! col = 0
      then (case bestRow of
              None \<Rightarrow> Some row
            | Some b \<Rightarrow> if rowCounts ! row < rowCounts ! b then Some row else bestRow)
      else bestRow)"

definition findBestRow :: "'a::zero grid \<Rightarrow> nat list \<Rightarrow> nat \<Rightarrow> nat option" where
  "findBestRow g rowCounts col = foldl (betterRow g rowCounts col) None [0..<3]"

definition placeNumber ::
  "'a::zero grid \<times> nat list \<Rightarrow> 'a \<times> nat \<Rightarrow> 'a grid \<times> nat list" where
  "placeNumber st nc =
     (case findBestRow (fst st) (snd st) (snd nc) of
        None \<Rightarrow> st
      | Some bestRow \<Rightarrow>
          ((fst st)[bestRow := (fst st ! bestRow)[snd nc := fst nc]],
           (snd st)[bestRow := snd st ! bestRow + 1]))"

definition placeNumbers :: "int list list \<Rightarrow> int grid \<times> nat list" where
  "placeNumbers cols = foldl placeNumber (emptyGrid, [0, 0, 0]) (allNumbers cols)"

subsection \<open>validateTicket: the generator's self-check\<close>

definition nonEmpty :: "'a::zero list \<Rightarrow> 'a list" where
  "nonEmpty cells = filter (\<lambda>cell. cell \<noteq> 0) cells"

definition numbersInRow :: "'a::zero grid \<Rightarrow> nat \<Rightarrow> nat" where
  "numbersInRow g row = length (nonEmpty (g ! row))"

definition numbersInCol :: "'a::zero grid \<Rightarrow> nat \<Rightarrow> nat" where
  "numbersInCol g col = length (filter (\<lambda>row. row ! col \<noteq> 0) g)"

definition outsideRange :: "int grid \<Rightarrow> nat \<times> nat \<Rightarrow> bool" where
  "outsideRange g cr =
     (let num = g ! snd cr ! fst cr
      in num \<noteq> 0 \<and> (num < fst (columnRanges ! fst cr) \<or> snd (columnRanges ! fst cr) < num))"

definition validateTicket :: "int grid \<Rightarrow> error option" where
  "validateTicket g =
     (case find (\<lambda>row. numbersInRow g row \<noteq> 5) [0..<3] of
        Some row \<Rightarrow>
          Some (Error (''Invalid ticket: Row '' @ showNat row @ '' has ''
                       @ showNat (numbersInRow g row) @ '' numbers instead of 5''))
      | None \<Rightarrow>
     (case find (\<lambda>col. 3 < numbersInCol g col) [0..<9] of
        Some col \<Rightarrow>
          Some (Error (''Invalid ticket: Column '' @ showNat col @ '' has ''
                       @ showNat (numbersInCol g col) @ '' numbers, maximum allowed is 3''))
      | None \<Rightarrow>
     (if length (nonEmpty (concat g)) \<noteq> 15
      then Some (Error (''Invalid ticket: Has '' @ showNat (length (nonEmpty (concat g)))
                        @ '' numbers instead of 15''))
      else
     (case find (outsideRange g) (concat (map (\<lambda>col. map (\<lambda>row. (col, row)) [0..<3]) [0..<9])) of
        Some (col, row) \<Rightarrow>
          Some (Error (''Invalid ticket: Number '' @ showInt (g ! row ! col) @ '' in column ''
                       @ showNat col @ '' is outside allowed range ''
                       @ showInt (fst (columnRanges ! col)) @ ''-''
                       @ showInt (snd (columnRanges ! col))))
      | None \<Rightarrow>
     (if length (nonEmpty (concat g)) \<noteq> card (set (nonEmpty (concat g)))
      then Some (Error ''Invalid ticket: Contains duplicate numbers'')
      else None)))))"

subsection \<open>generateHousieTicket and convertFlatToGrid\<close>

record ticket =
  grid :: "int grid"
  flatNumbers :: "int list"

definition finishTicket :: "gen_state \<Rightarrow> error + ticket" where
  "finishTicket s =
     (let g = fst (placeNumbers (columnNumbers s))
      in case validateTicket g of
           Some e \<Rightarrow> Inl e
         | None \<Rightarrow> Inr \<lparr>grid = g, flatNumbers = sort (nonEmpty (concat g))\<rparr>)"

text \<open>
  \<open>None\<close>: one of the three \<^verbatim>\<open>while\<close> loops does not terminate; \<open>Some (Inl e)\<close>:
  the self-check throws \<open>e\<close>; \<open>Some (Inr t)\<close>: the ticket \<open>t\<close> is returned.
\<close>

definition generateHousieTicket :: "random \<Rightarrow> (error + ticket) option" where
  "generateHousieTicket rnd =
     do {
       s1 \<leftarrow> distributeLoop rnd initialState;
       s2 \<leftarrow> fillLoop rnd s1;
       s3 \<leftarrow> trimLoop s2;
       Some (finishTicket s3)
     }"

definition convertFlatToGrid :: "random \<Rightarrow> 'a list \<Rightarrow> (error + int grid) option" where
  "convertFlatToGrid rnd numbers =
     (if length numbers \<noteq> 15
      then Some (Inl (Error (''Expected 15 numbers, got '' @ showNat (length numbers))))
      else map_option (map_sum id grid) (generateHousieTicket rnd))"

subsection \<open>Candidate values and the host's built-ins\<close>

text \<open>
  A candidate is an arbitrary JavaScript value. What the engine decides (\<^verbatim>\<open>JSON.parse\<close>,
  the text of a number in a template literal, the message of the \<^verbatim>\<open>TypeError\<close> raised by
  calling \<^verbatim>\<open>.filter\<close> on a value that has none) is a parameter of the model.
\<close>

datatype jsval =
    JNum rat
  | JStr string
  | JArr "jsval list"
  | JBool bool
  | JNull
  | JUndefined
  | JObj "(string \<times> jsval) list"

record host =
  jsonParse :: "string \<Rightarrow> string + jsval"
  numberToString :: "rat \<Rightarrow> string"
  filterTypeError :: "jsval \<Rightarrow> string"

fun errorToString :: "error \<Rightarrow> string" where
  "errorToString (Error m) = (if m = [] then ''Error'' else ''Error: '' @ m)"
| "errorToString (TypeError m) = (if m = [] then ''TypeError'' else ''TypeError: '' @ m)"
| "errorToString (SyntaxError m) = (if m = [] then ''SyntaxError'' else ''SyntaxError: '' @ m)"

fun isArray :: "jsval \<Rightarrow> bool" where
  "isArray (JArr xs) = True"
| "isArray v = False"

text \<open>\<^verbatim>\<open>numbers.flat()\<close>: one level of nesting is removed.\<close>

fun flatEntry :: "jsval \<Rightarrow> jsval list" where
  "flatEntry (JArr xs) = xs"
| "flatEntry v = [v]"

definition flat :: "jsval list \<Rightarrow> jsval list" where
  "flat xs = concat (map flatEntry xs)"

text \<open>\<^verbatim>\<open>ticketNumbers.filter(n => typeof n === 'number' && n > 0)\<close>\<close>

fun isPositiveNumber :: "jsval \<Rightarrow> bool" where
  "isPositiveNumber (JNum q) = (0 < q)"
| "isPositiveNumber v = False"

fun numberOf :: "jsval \<Rightarrow> rat" where
  "numberOf (JNum q) = q"
| "numberOf v = 0"

definition validNumbers :: "jsval list \<Rightarrow> rat list" where
  "validNumbers xs = map numberOf (filter isPositiveNumber xs)"

text \<open>
  The bucket loop: the first column whose range holds the number is counted, and the loop
  breaks; a number in no range is counted nowhere.
\<close>

definition inColumn :: "rat \<Rightarrow> nat \<Rightarrow> bool" where
  "inColumn num col =
     (of_int (fst (columnRanges ! col)) \<le> num \<and> num \<le> of_int (snd (columnRanges ! col)))"

definition columnOf :: "rat \<Rightarrow> nat option" where
  "columnOf num = find (inColumn num) [0..<length columnRanges]"

definition countInColumn :: "nat list \<Rightarrow> rat \<Rightarrow> nat list" where
  "countInColumn counts num =
     (case columnOf num of None \<Rightarrow> counts | Some col \<Rightarrow> counts[col := counts ! col + 1])"

definition countColumns :: "rat list \<Rightarrow> nat list" where
  "countColumns nums = foldl countInColumn (replicate 9 0) nums"

text \<open>The issues that both validators push before the summary issue, in the source's order.\<close>

definition countIssues :: "rat list \<Rightarrow> string list" where
  "countIssues nums =
     (if length nums \<noteq> 15
      then [''Has '' @ showNat (length nums) @ '' numbers instead of 15''] else [])"

definition duplicateIssues :: "rat list \<Rightarrow> string list" where
  "duplicateIssues nums =
     (if card (set nums) \<noteq> length nums then [''Contains duplicate numbers''] else [])"

definition rangeIssues :: "host \<Rightarrow> rat list \<Rightarrow> string list" where
  "rangeIssues h nums =
     map (\<lambda>num. ''Number '' @ numberToString h num @ '' is outside valid range 1-90'')
       (filter (\<lambda>num. num < 1 \<or> 90 < num) nums)"

definition columnIssue :: "nat list \<Rightarrow> nat \<Rightarrow> string" where
  "columnIssue counts col =
     ''Column '' @ showNat (col + 1) @ '' has '' @ showNat (counts ! col)
     @ '' numbers (max 3 allowed)''"

definition columnIssues :: "nat list \<Rightarrow> string list" where
  "columnIssues counts =
     map (columnIssue counts) (filter (\<lambda>col. 3 < counts ! col) [0..<length counts])"

definition hasColumnIssues :: "nat list \<Rightarrow> bool" where
  "hasColumnIssues counts = (filter (\<lambda>col. 3 < counts ! col) [0..<length counts] \<noteq> [])"

subsection \<open>validateExistingTicket\<close>

record validation =
  isValid :: bool
  issues :: "string list"

definition checkTicketNumbers :: "host \<Rightarrow> jsval list \<Rightarrow> validation" where
  "checkTicketNumbers h ticketNumbers =
     (let nums = validNumbers ticketNumbers;
          counts = countColumns nums;
          found = countIssues nums @ duplicateIssues nums @ rangeIssues h nums
                  @ columnIssues counts
                  @ (if hasColumnIssues counts
                     then [''Ticket needs regeneration for proper Housie format''] else [])
      in \<lparr>isValid = (length found = 0), issues = found\<rparr>)"

definition caught :: "error \<Rightarrow> validation" where
  "caught e = \<lparr>isValid = False, issues = [''Error validating ticket: '' @ errorToString e]\<rparr>"

text \<open>
  A string is parsed, and what it parses to is filtered as it is: a parse that fails throws a
  \<^verbatim>\<open>SyntaxError\<close>, a parsed value that is no array throws a \<^verbatim>\<open>TypeError\<close> at
  \<^verbatim>\<open>.filter\<close>, and the \<^verbatim>\<open>catch\<close> block turns either into one issue. An array is
  flattened when its first entry is an array.
\<close>

definition validateExistingTicket :: "host \<Rightarrow> jsval \<Rightarrow> validation" where
  "validateExistingTicket h numbers =
     (case numbers of
        JStr s \<Rightarrow>
          (case jsonParse h s of
             Inl m \<Rightarrow> caught (SyntaxError m)
           | Inr (JArr xs) \<Rightarrow> checkTicketNumbers h xs
           | Inr v \<Rightarrow> caught (TypeError (filterTypeError h v)))
      | JArr xs \<Rightarrow>
          checkTicketNumbers h (case xs of [] \<Rightarrow> xs | x # _ \<Rightarrow> if isArray x then flat xs else xs)
      | _ \<Rightarrow> \<lparr>isValid = False, issues = [''Invalid number format'']\<rparr>)"

subsection \<open>validateTicketFormat\<close>

record format_validation = validation +
  columnCounts' :: "nat list"
  isProperFormat :: bool

definition validateTicketFormat :: "host \<Rightarrow> jsval \<Rightarrow> format_validation" where
  "validateTicketFormat h ticketNumbers =
     (case ticketNumbers of
        JArr xs \<Rightarrow>
          (let nums = validNumbers xs;
               counts = countColumns nums;
               found = countIssues nums @ duplicateIssues nums @ rangeIssues h nums
                       @ columnIssues counts
                       @ (if hasColumnIssues counts then [''Not proper Housie format''] else [])
           in \<lparr>isValid = (length found = 0), issues = found, columnCounts' = counts,
               isProperFormat = (\<not> hasColumnIssues counts \<and> length found = 0)\<rparr>)
      | v \<Rightarrow>
          \<lparr>isValid = False,
           issues = [''Error validating: '' @ errorToString (TypeError (filterTypeError h v))],
           columnCounts' = [], isProperFormat = False\<rparr>)"

subsection \<open>analyzeTicket: the grid laid out from a stored list\<close>

text \<open>
  The admin component rebuilds a grid from the stored numbers (\<^verbatim>\<open>ticketNumbers: number[]\<close>)
  before it looks for completed lines. With 15 positive numbers it first counts them by
  column, raising \<^verbatim>\<open>hasColumnOverflow\<close> as soon as a count exceeds 3.
\<close>

definition positiveNumbers :: "rat list \<Rightarrow> rat list" where
  "positiveNumbers ticketNumbers = filter (\<lambda>n. 0 < n) ticketNumbers"

definition overflowStep :: "nat list \<times> bool \<Rightarrow> rat \<Rightarrow> nat list \<times> bool" where
  "overflowStep st num =
     (case columnOf num of
        None \<Rightarrow> st
      | Some col \<Rightarrow> ((fst st)[col := fst st ! col + 1], snd st \<or> 3 < fst st ! col + 1))"

definition hasColumnOverflow :: "rat list \<Rightarrow> bool" where
  "hasColumnOverflow nums = snd (foldl overflowStep (replicate 9 0, False) nums)"

text \<open>
  Without overflow the numbers are grouped by column in the object \<^verbatim>\<open>numbersbyColumn\<close>
  (a number in no range is not grouped), each group is sorted, and \<^verbatim>\<open>for (const colStr in
  numbersbyColumn)\<close> visits the columns that have a group in ascending order.
\<close>

definition groupStep :: "(nat \<rightharpoonup> rat list) \<Rightarrow> rat \<Rightarrow> (nat \<rightharpoonup> rat list)" where
  "groupStep m num =
     (case columnOf num of
        None \<Rightarrow> m
      | Some i \<Rightarrow> m(i \<mapsto> (case m i of None \<Rightarrow> [] | Some ns \<Rightarrow> ns) @ [num]))"

definition numbersbyColumn :: "rat list \<Rightarrow> (nat \<rightharpoonup> rat list)" where
  "numbersbyColumn nums = (\<lambda>col. map_option sort (foldl groupStep Map.empty nums col))"

definition groupedColumns :: "(nat \<rightharpoonup> rat list) \<Rightarrow> (rat \<times> nat) list" where
  "groupedColumns m =
     concat (map (\<lambda>col. case m col of None \<Rightarrow> [] | Some ns \<Rightarrow> map (\<lambda>num. (num, col)) ns)
               [0..<9])"

text \<open>
  Each number goes to the row with the fewest numbers (\<^verbatim>\<open>bestRow\<close> starts at 0 and moves to
  a later row only for a strictly smaller count below 5); the cell is written without
  looking at what it holds.
\<close>

definition layoutBestRow :: "nat list \<Rightarrow> nat" where
  "layoutBestRow rowCounts =
     foldl (\<lambda>bestRow row.
              if rowCounts ! row < rowCounts ! bestRow \<and> rowCounts ! row < 5 then row else bestRow)
       0 [1..<3]"

definition layoutNumber ::
  "'a::zero grid \<times> nat list \<Rightarrow> 'a \<times> nat \<Rightarrow> 'a grid \<times> nat list" where
  "layoutNumber st nc =
     (let bestRow = layoutBestRow (snd st)
      in if snd st ! bestRow < 5
         then ((fst st)[bestRow := (fst st ! bestRow)[snd nc := fst nc]],
               (snd st)[bestRow := snd st ! bestRow + 1])
         else st)"

definition layoutGrid :: "rat list \<Rightarrow> rat grid" where
  "layoutGrid nums =
     fst (foldl layoutNumber (emptyGrid, [0, 0, 0]) (groupedColumns (numbersbyColumn nums)))"

text \<open>The fallback: the first 15 entries, five to a row, in the first five columns.\<close>

definition fallbackCell :: "rat list \<Rightarrow> rat grid \<Rightarrow> nat \<Rightarrow> rat grid" where
  "fallbackCell ticketNumbers g i =
     (if i div 5 < 3 \<and> 0 < ticketNumbers ! i
      then g[i div 5 := (g ! (i div 5))[i mod 5 := ticketNumbers ! i]]
      else g)"

definition fallbackGrid :: "rat list \<Rightarrow> rat grid" where
  "fallbackGrid ticketNumbers =
     foldl (fallbackCell ticketNumbers) emptyGrid [0..<min 15 (length ticketNumbers)]"

text \<open>
  The grid that \<^verbatim>\<open>analyzeTicket\<close> works on. With overflow it is the grid of
  \<^verbatim>\<open>convertFlatToGrid\<close>; an error thrown there is caught and the fallback is used.
  \<open>None\<close>: the generator does not return.
\<close>

definition analyzeTicketGrid :: "random \<Rightarrow> rat list \<Rightarrow> rat grid option" where
  "analyzeTicketGrid rnd ticketNumbers =
     (let nums = positiveNumbers ticketNumbers
      in if length nums = 15
         then (if hasColumnOverflow nums
               then (case convertFlatToGrid rnd nums of
                       None \<Rightarrow> None
                     | Some (Inl e) \<Rightarrow> Some (fallbackGrid ticketNumbers)
                     | Some (Inr g) \<Rightarrow> Some (map (map of_int) g))
               else Some (layoutGrid nums))
         else Some (fallbackGrid ticketNumbers))"

subsection \<open>The ticket invariants\<close>

text \<open>
  The six invariants of a ticket grid: 15 numbers, 5 in each row, at most 3 in each column,
  every number within the range of its column, all numbers distinct, and the numbers of a
  column increasing from the top row down.
\<close>

definition gridShape :: "'a grid \<Rightarrow> bool" where
  "gridShape g = (length g = 3 \<and> list_all (\<lambda>row. length row = 9) g)"

definition fifteenNumbers :: "'a::zero grid \<Rightarrow> bool" where
  "fifteenNumbers g = (length (nonEmpty (concat g)) = 15)"

definition fivePerRow :: "'a::zero grid \<Rightarrow> bool" where
  "fivePerRow g = list_all (\<lambda>row. numbersInRow g row = 5) [0..<3]"

definition atMostThreePerColumn :: "'a::zero grid \<Rightarrow> bool" where
  "atMostThreePerColumn g = list_all (\<lambda>col. numbersInCol g col \<le> 3) [0..<9]"

definition cellInRange :: "int grid \<Rightarrow> nat \<Rightarrow> nat \<Rightarrow> bool" where
  "cellInRange g col row =
     (g ! row ! col = 0 \<or>
      fst (columnRanges ! col) \<le> g ! row ! col \<and> g ! row ! col \<le> snd (columnRanges ! col))"

definition withinColumnRanges :: "int grid \<Rightarrow> bool" where
  "withinColumnRanges g = list_all (\<lambda>col. list_all (cellInRange g col) [0..<3]) [0..<9]"

definition pairwiseDistinct :: "'a::zero grid \<Rightarrow> bool" where
  "pairwiseDistinct g = distinct (nonEmpty (concat g))"

definition columnNumbersOf :: "'a::zero grid \<Rightarrow> nat \<Rightarrow> 'a list" where
  "columnNumbersOf g col = nonEmpty (map (\<lambda>row. row ! col) g)"

definition columnsAscending :: "'a::{zero,linorder} grid \<Rightarrow> bool" where
  "columnsAscending g = list_all (\<lambda>col. sorted_wrt (<) (columnNumbersOf g col)) [0..<9]"

subsection \<open>Vocabulary of the proofs about row placement\<close>

text \<open>
  The row counts after \<open>k\<close> numbers have been dealt to the rows in turn, and the numbers of
  one column tagged with it.
\<close>

definition roundRobin :: "nat \<Rightarrow> nat list" where
  "roundRobin k = [(k + 2) div 3, (k + 1) div 3, k div 3]"

definition columnBlock :: "'a list list \<Rightarrow> nat \<Rightarrow> ('a \<times> nat) list" where
  "columnBlock cols col = map (\<lambda>num. (num, col)) (cols ! col)"

text \<open>Dealing in turn: the next number goes to the row after the last one's.\<close>

definition dealNumber :: "'a grid \<times> nat list \<Rightarrow> 'a \<times> nat \<Rightarrow> 'a grid \<times> nat list" where
  "dealNumber st nc =
     (let row = sum_list (snd st) mod 3
      in ((fst st)[row := (fst st ! row)[snd nc := fst nc]], (snd st)[row := snd st ! row + 1]))"

text \<open>The sorted groups of a stored list, column by column.\<close>

definition columnsOf :: "rat list \<Rightarrow> rat list list" where
  "columnsOf nums = map (\<lambda>col. sort (filter (\<lambda>num. columnOf num = Some col) nums)) [0..<9]"

subsection \<open>Vocabulary of the claim about grid reconstruction\<close>

text \<open>
  A stored list (with a filler 0), a list of fifteen numbers that holds 95, and the grid laid
  out from the latter; then the two conditions on a list of numbers: at most three in each
  column range, and every number in some column range.
\<close>

definition storedList :: "rat list" where
  "storedList = [70, 1, 6, 0, 10, 19, 20, 29, 30, 39, 40, 49, 50, 59, 60, 69]"

definition outOfRangeList :: "rat list" where
  "outOfRangeList = [1, 2, 3, 10, 11, 12, 20, 21, 22, 30, 31, 32, 40, 41, 95]"

definition outOfRangeGrid :: "rat grid" where
  "outOfRangeGrid =
     [[1, 10, 20, 30, 40, 0, 0, 0, 0], [2, 11, 21, 31, 41, 0, 0, 0, 0],
      [3, 12, 22, 32, 0, 0, 0, 0, 0]]"

definition atMostThreeInRanges :: "rat list \<Rightarrow> bool" where
  "atMostThreeInRanges nums =
     list_all (\<lambda>col. length (filter (\<lambda>num. inColumn num col) nums) \<le> 3) [0..<9]"

definition allInRanges :: "rat list \<Rightarrow> bool" where
  "allInRanges nums = list_all (\<lambda>num. list_ex (inColumn num) [0..<9]) nums"

subsection \<open>Vocabulary of the claims about the validators\<close>

text \<open>
  The list a candidate is coerced into before the checks run, when there is one: what a
  string parses to if that is an array, and an array itself (flattened when its first entry
  is an array). \<open>None\<close>: the candidate cannot be coerced into a list.
\<close>

definition candidateList :: "host \<Rightarrow> jsval \<Rightarrow> jsval list option" where
  "candidateList h v =
     (case v of
        JStr s \<Rightarrow> (case jsonParse h s of Inr (JArr xs) \<Rightarrow> Some xs | _ \<Rightarrow> None)
      | JArr xs \<Rightarrow> Some (case xs of [] \<Rightarrow> xs | x # _ \<Rightarrow> if isArray x then flat xs else xs)
      | _ \<Rightarrow> None)"

text \<open>How many of the valid numbers of a list lie in the range of column \<open>col\<close>.\<close>

definition numbersInRange :: "jsval list \<Rightarrow> nat \<Rightarrow> nat" where
  "numbersInRange xs col = length (filter (\<lambda>num. inColumn num col) (validNumbers xs))"

text \<open>
  The entries of a candidate, and the valid ones as the specification words them: numeric,
  positive and within 1-90. A whole number is a number without a fractional part.
\<close>

definition entries :: "jsval \<Rightarrow> jsval list" where
  "entries v = (case v of JArr xs \<Rightarrow> xs | _ \<Rightarrow> [])"

definition validEntry :: "jsval \<Rightarrow> bool" where
  "validEntry x = (isPositiveNumber x \<and> 1 \<le> numberOf x \<and> numberOf x \<le> 90)"

definition wholeEntry :: "jsval \<Rightarrow> bool" where
  "wholeEntry x = (of_int \<lfloor>numberOf x\<rfloor> = numberOf x)"

text \<open>A host for the concrete instances: every parse fails, numbers print as integers.\<close>

definition plainHost :: host where
  "plainHost =
     \<lparr>jsonParse = (\<lambda>s. Inl ''Unexpected token''),
      numberToString = (\<lambda>q. showInt \<lfloor>q\<rfloor>),
      filterTypeError = (\<lambda>v. ''ticketNumbers.filter is not a function'')\<rparr>"

text \<open>A list of fifteen distinct valid numbers, four of them in the range of column 1.\<close>

definition overflowingCandidate :: jsval where
  "overflowingCandidate =
     JArr (map JNum [1, 2, 3, 4, 10, 11, 12, 20, 21, 22, 30, 31, 32, 40, 41])"

text \<open>
  The columns that the generator chooses when every call of \<^verbatim>\<open>Math.random()\<close> returns
  one half.
\<close>

definition sampleColumns :: "int list list" where
  "sampleColumns =
     [[1, 6], [10, 19], [20, 29], [30, 39], [40, 49], [50, 59], [60, 69], [70], []]"

text \<open>The array of a flat list of ticket numbers, as a candidate for the validator.\<close>

definition flatCandidate :: "int list \<Rightarrow> jsval" where
  "flatCandidate ns = JArr (map (\<lambda>n. JNum (of_int n)) ns)"

text \<open>
  The ticket that the generator returns when every call of \<^verbatim>\<open>Math.random()\<close> returns one
  half, and a stored list of fifteen numbers with four of them in 1-9.
\<close>

definition halfTicket :: ticket where
  "halfTicket =
     \<lparr>grid = [[1, 19, 0, 30, 49, 0, 60, 0, 0],
              [6, 0, 20, 39, 0, 50, 69, 0, 0],
              [0, 10, 29, 0, 40, 59, 0, 70, 0]],
      flatNumbers = [1, 6, 10, 19, 20, 29, 30, 39, 40, 49, 50, 59, 60, 69, 70]\<rparr>"

definition overflowingList :: "rat list" where
  "overflowingList = [1, 2, 3, 4, 10, 11, 12, 20, 21, 22, 30, 31, 32, 40, 41]"

subsection \<open>Vocabulary of the proofs about the generator's loops\<close>

text \<open>
  What the three loops keep true of the generator's state: both arrays have nine entries, a
  column's count is the length of its list, a column holds at most three numbers, all of them
  different and within the column's range, and \<^verbatim>\<open>totalNumbers\<close> is the number of numbers
  chosen, at most fifteen.
\<close>

definition inOwnRange :: "nat \<Rightarrow> int list \<Rightarrow> bool" where
  "inOwnRange col nums
     = (\<forall>n\<in>set nums. fst (columnRanges ! col) \<le> n \<and> n \<le> snd (columnRanges ! col))"

definition goodState :: "gen_state \<Rightarrow> bool" where
  "goodState s =
     (length (columnCounts s) = 9 \<and> length (columnNumbers s) = 9 \<and>
      (\<forall>c<9. columnCounts s ! c = int (length (columnNumbers s ! c)) \<and>
              length (columnNumbers s ! c) \<le> 3 \<and> distinct (columnNumbers s ! c) \<and>
              inOwnRange c (columnNumbers s ! c)) \<and>
      totalNumbers s = int (length (concat (columnNumbers s))) \<and> totalNumbers s \<le> 15)"

section \<open>Properties\<close>

subsection \<open>The column table partitions the whole numbers 1-90\<close>

lemma length_columnRanges: "length columnRanges = 9"
  by (simp add: columnRanges_def)

lemma below_9:
  "(c::nat) < 9 \<Longrightarrow>
   c = 0 \<or> c = 1 \<or> c = 2 \<or> c = 3 \<or> c = 4 \<or> c = 5 \<or> c = 6 \<or> c = 7 \<or> c = 8"
  by arith

lemma column_lo: "c < 9 \<Longrightarrow> fst (columnRanges ! c) = (if c = 0 then 1 else 10 * int c)"
  by (drule below_9) (auto simp: columnRanges_def)

lemma column_hi: "c < 9 \<Longrightarrow> snd (columnRanges ! c) = (if c = 8 then 90 else 10 * int c + 9)"
  by (drule below_9) (auto simp: columnRanges_def)

lemma columns_separate:
  assumes "a < b" "b < 9" "inColumn q a"
  shows "\<not> inColumn q b"
proof
  assume qb: "inColumn q b"
  have "snd (columnRanges ! a) < fst (columnRanges ! b)"
    using assms(1,2) by (simp add: column_lo column_hi)
  then have "(of_int (snd (columnRanges ! a)) :: rat) < of_int (fst (columnRanges ! b))"
    by simp
  with assms(3) qb show False
    by (simp add: inColumn_def)
qed

lemma columnOf_Some: "columnOf q = Some col \<longleftrightarrow> col < 9 \<and> inColumn q col"
proof
  assume "columnOf q = Some col"
  then show "col < 9 \<and> inColumn q col"
    by (auto simp: columnOf_def length_columnRanges find_Some_iff)
next
  assume a: "col < 9 \<and> inColumn q col"
  have "\<exists>i<length [0..<9]. inColumn q ([0..<9] ! i) \<and> col = [0..<9] ! i
          \<and> (\<forall>j<i. \<not> inColumn q ([0..<9] ! j))"
  proof (intro exI [of _ col] conjI allI impI)
    show "col < length [0..<9]" using a by simp
    show "inColumn q ([0..<9] ! col)" using a by simp
    show "col = [0..<9] ! col" using a by simp
    fix j assume "j < col"
    then show "\<not> inColumn q ([0..<9] ! j)"
      using a columns_separate [of j col q] by auto
  qed
  then show "columnOf q = Some col"
    unfolding columnOf_def length_columnRanges find_Some_iff .
qed

lemma columnOf_None: "columnOf q = None \<longleftrightarrow> (\<forall>col<9. \<not> inColumn q col)"
  by (simp add: columnOf_def length_columnRanges find_None_iff)

subsection \<open>What the validators do with a candidate\<close>

lemma validate_coerced:
  "candidateList h v = Some xs \<Longrightarrow> validateExistingTicket h v = checkTicketNumbers h xs"
  by (auto simp: candidateList_def validateExistingTicket_def
           split: jsval.splits sum.splits list.splits if_splits)

subsection \<open>Counting numbers by column\<close>

lemma length_countColumns_from: "length (foldl countInColumn counts nums) = length counts"
  by (induction nums arbitrary: counts) (auto simp: countInColumn_def split: option.splits)

lemma nth_countColumns_from:
  "length counts = 9 \<Longrightarrow> col < 9 \<Longrightarrow>
   foldl countInColumn counts nums ! col
     = counts ! col + length (filter (\<lambda>num. inColumn num col) nums)"
proof (induction nums arbitrary: counts)
  case Nil
  then show ?case by simp
next
  case (Cons num nums)
  show ?case
  proof (cases "columnOf num")
    case None
    then have "\<not> inColumn num col"
      using Cons.prems by (simp add: columnOf_None)
    with None Cons show ?thesis
      by (simp add: countInColumn_def)
  next
    case (Some c)
    then have c: "c < 9" "inColumn num c"
      by (simp_all add: columnOf_Some)
    have "inColumn num col \<longleftrightarrow> col = c"
      using c Cons.prems(2) columns_separate [of c col num] columns_separate [of col c num]
      by (metis nat_neq_iff)
    with Some c Cons show ?thesis
      by (auto simp: countInColumn_def nth_list_update)
  qed
qed

lemma nth_countColumns:
  "col < 9 \<Longrightarrow> countColumns nums ! col = length (filter (\<lambda>num. inColumn num col) nums)"
  by (simp add: countColumns_def nth_countColumns_from)

lemma length_countColumns: "length (countColumns nums) = 9"
  by (simp add: countColumns_def length_countColumns_from)

lemma sum_list_bump:
  "i < length (xs :: nat list) \<Longrightarrow> sum_list (xs[i := Suc (xs ! i)]) = Suc (sum_list xs)"
  by (simp add: sum_list_update)

lemma sum_countColumns_from:
  "length counts = 9 \<Longrightarrow>
   sum_list (foldl countInColumn counts nums)
     = sum_list counts + length (filter (\<lambda>num. columnOf num \<noteq> None) nums)"
proof (induction nums arbitrary: counts)
  case Nil
  then show ?case by simp
next
  case (Cons num nums)
  show ?case
  proof (cases "columnOf num")
    case None
    with Cons show ?thesis by (simp add: countInColumn_def)
  next
    case (Some c)
    then have "c < length counts"
      using Cons.prems by (simp add: columnOf_Some)
    with Some Cons show ?thesis
      by (simp add: countInColumn_def sum_list_bump)
  qed
qed

lemma sum_countColumns:
  "sum_list (countColumns nums) = length (filter (\<lambda>num. columnOf num \<noteq> None) nums)"
  by (simp add: countColumns_def sum_countColumns_from)

text \<open>A positive whole number lies in a column exactly when it is within 1-90.\<close>

lemma whole_in_some_column:
  assumes "of_int \<lfloor>q\<rfloor> = (q::rat)"
  shows "columnOf q \<noteq> None \<longleftrightarrow> 1 \<le> q \<and> q \<le> 90"
proof -
  obtain n :: int where q: "q = of_int n"
    using assms by metis
  have in_col: "\<And>c. c < 9 \<Longrightarrow> inColumn q c \<longleftrightarrow> fst (columnRanges ! c) \<le> n \<and> n \<le> snd (columnRanges ! c)"
    by (simp add: inColumn_def q)
  show ?thesis
  proof
    assume "columnOf q \<noteq> None"
    then obtain c where c: "c < 9" "inColumn q c"
      by (auto simp: columnOf_None)
    then have "1 \<le> n \<and> n \<le> 90"
      using in_col [of c] by (auto simp: column_lo column_hi split: if_splits)
    then show "1 \<le> q \<and> q \<le> 90"
      by (simp add: q)
  next
    assume "1 \<le> q \<and> q \<le> 90"
    then have n: "1 \<le> n" "n \<le> 90"
      by (simp_all add: q)
    define c where "c = (if n = 90 then 8 else nat (n div 10))"
    have "c < 9" using n by (auto simp: c_def)
    moreover have "fst (columnRanges ! c) \<le> n \<and> n \<le> snd (columnRanges ! c)"
      using n \<open>c < 9\<close> by (auto simp: column_lo column_hi c_def)
    ultimately have "inColumn q c" "c < 9"
      using in_col by auto
    then show "columnOf q \<noteq> None"
      by (auto simp: columnOf_None)
  qed
qed

subsection \<open>Claims about the validators\<close>

text \<open>
  Claim C9. A candidate that cannot be coerced into a list (neither a string nor an array, a
  string that does not parse, or a string that parses to something other than an array)
  makes \<^verbatim>\<open>validateExistingTicket\<close> return, not throw: the result is invalid and carries
  exactly one issue, \<^verbatim>\<open>Invalid number format\<close> or the text of the caught error, and none
  of the later checks has added anything.
\<close>

theorem malformed_candidate_single_issue:
  "candidateList h v = None \<Longrightarrow>
   isValid (validateExistingTicket h v) = False \<and>
   (\<exists>issue. issues (validateExistingTicket h v) = [issue] \<and>
      (issue = ''Invalid number format'' \<or>
       (\<exists>e. issue = ''Error validating ticket: '' @ errorToString e)))"
  by (auto simp: candidateList_def validateExistingTicket_def caught_def
           simp del: errorToString.simps
           split: jsval.splits sum.splits list.splits if_splits)

theorem malformed_candidate_single_issue_witness:
  "candidateList plainHost (JStr ''1,2,3'') = None \<and>
   validateExistingTicket plainHost (JStr ''1,2,3'')
     = \<lparr>isValid = False,
        issues = [''Error validating ticket: SyntaxError: Unexpected token'']\<rparr> \<and>
   candidateList plainHost JNull = None \<and>
   validateExistingTicket plainHost JNull
     = \<lparr>isValid = False, issues = [''Invalid number format'']\<rparr>"
  using malformed_candidate_single_issue [of plainHost "JStr ''1,2,3''"]
    malformed_candidate_single_issue [of plainHost JNull]
  by (simp add: candidateList_def validateExistingTicket_def caught_def plainHost_def)

lemma columnIssue_reported:
  assumes "col < 9" "3 < numbersInRange xs col"
  shows "columnIssue (countColumns (validNumbers xs)) col
           \<in> set (columnIssues (countColumns (validNumbers xs)))"
    and "hasColumnIssues (countColumns (validNumbers xs))"
proof -
  let ?counts = "countColumns (validNumbers xs)"
  have "col \<in> set (filter (\<lambda>col. 3 < ?counts ! col) [0..<length ?counts])"
    using assms by (simp add: length_countColumns nth_countColumns numbersInRange_def)
  then show "columnIssue ?counts col \<in> set (columnIssues ?counts)"
    unfolding columnIssues_def by (metis imageI set_map)
  from \<open>col \<in> set _\<close> show "hasColumnIssues ?counts"
    unfolding hasColumnIssues_def by (metis empty_iff empty_set)
qed

text \<open>
  Claim C7. When a column's range holds more than three of the candidate's valid numbers,
  \<^verbatim>\<open>validateExistingTicket\<close> reports the candidate invalid, its issues contain
  \<^verbatim>\<open>Column <col + 1> has <count> numbers (max 3 allowed)\<close> for that column, and the last
  issue is the summary \<^verbatim>\<open>Ticket needs regeneration for proper Housie format\<close>. With four
  valid numbers in 1-9 the column issue reads \<^verbatim>\<open>Column 1 has 4 numbers (max 3 allowed)\<close>.
\<close>

theorem column_overflow_reported:
  assumes "candidateList h v = Some xs" and "col < 9" and "3 < numbersInRange xs col"
  shows "isValid (validateExistingTicket h v) = False \<and>
         (''Column '' @ showNat (col + 1) @ '' has '' @ showNat (numbersInRange xs col)
            @ '' numbers (max 3 allowed)'') \<in> set (issues (validateExistingTicket h v)) \<and>
         last (issues (validateExistingTicket h v))
           = ''Ticket needs regeneration for proper Housie format'' \<and>
         (col = 0 \<and> numbersInRange xs col = 4 \<longrightarrow>
            ''Column 1 has 4 numbers (max 3 allowed)'' \<in> set (issues (validateExistingTicket h v)))"
proof -
  let ?counts = "countColumns (validNumbers xs)"
  let ?r = "validateExistingTicket h v"
  have r: "?r = checkTicketNumbers h xs"
    using assms(1) by (rule validate_coerced)
  have has: "hasColumnIssues ?counts"
    and mem: "columnIssue ?counts col \<in> set (columnIssues ?counts)"
    using columnIssue_reported [OF assms(2,3)] by simp_all
  have shown: "columnIssue ?counts col
      = ''Column '' @ showNat (col + 1) @ '' has '' @ showNat (numbersInRange xs col)
        @ '' numbers (max 3 allowed)''"
    using assms(2) by (simp add: columnIssue_def nth_countColumns numbersInRange_def)
  have iss: "issues ?r = countIssues (validNumbers xs) @ duplicateIssues (validNumbers xs)
      @ rangeIssues h (validNumbers xs) @ columnIssues ?counts
      @ [''Ticket needs regeneration for proper Housie format'']"
    using has by (simp add: r checkTicketNumbers_def Let_def)
  have 1: "isValid ?r = False"
    using has by (simp add: r checkTicketNumbers_def Let_def)
  have 2: "(''Column '' @ showNat (col + 1) @ '' has '' @ showNat (numbersInRange xs col)
            @ '' numbers (max 3 allowed)'') \<in> set (issues ?r)"
    using mem unfolding shown iss by simp
  have 3: "last (issues ?r) = ''Ticket needs regeneration for proper Housie format''"
    unfolding iss by simp
  have 4: "col = 0 \<and> numbersInRange xs col = 4 \<longrightarrow>
            ''Column 1 has 4 numbers (max 3 allowed)'' \<in> set (issues ?r)"
  proof
    assume a: "col = 0 \<and> numbersInRange xs col = 4"
    then have c: "col = 0" and n: "numbersInRange xs 0 = 4"
      by auto
    have s1: "showNat (0 + 1) = ''1''" and s4: "showNat 4 = ''4''"
      by (simp_all add: showNat.simps digitChar_def)
    show "''Column 1 has 4 numbers (max 3 allowed)'' \<in> set (issues ?r)"
      using 2 unfolding c n s1 s4 by simp
  qed
  from 1 2 3 4 show ?thesis by blast
qed

lemma overflowingCandidate_list:
  "candidateList plainHost overflowingCandidate
     = Some (map JNum [1, 2, 3, 4, 10, 11, 12, 20, 21, 22, 30, 31, 32, 40, 41])"
  by (simp add: candidateList_def overflowingCandidate_def)

lemma overflowingCandidate_count:
  "numbersInRange (map JNum [1, 2, 3, 4, 10, 11, 12, 20, 21, 22, 30, 31, 32, 40, 41]) 0 = 4"
  by (simp add: numbersInRange_def validNumbers_def inColumn_def columnRanges_def)

theorem column_overflow_reported_witness:
  "candidateList plainHost overflowingCandidate
     = Some (map JNum [1, 2, 3, 4, 10, 11, 12, 20, 21, 22, 30, 31, 32, 40, 41]) \<and>
   (0::nat) < 9 \<and>
   3 < numbersInRange (map JNum [1, 2, 3, 4, 10, 11, 12, 20, 21, 22, 30, 31, 32, 40, 41]) 0 \<and>
   isValid (validateExistingTicket plainHost overflowingCandidate) = False \<and>
   ''Column 1 has 4 numbers (max 3 allowed)''
     \<in> set (issues (validateExistingTicket plainHost overflowingCandidate)) \<and>
   last (issues (validateExistingTicket plainHost overflowingCandidate))
     = ''Ticket needs regeneration for proper Housie format''"
  using column_overflow_reported [OF overflowingCandidate_list, of 0]
    overflowingCandidate_list overflowingCandidate_count
  by simp


lemma columnCounts_of_format:
  "sum_list (columnCounts' (validateTicketFormat h v))
     = length (filter (\<lambda>num. columnOf num \<noteq> None) (validNumbers (entries v)))"
  by (cases v) (simp_all add: validateTicketFormat_def entries_def Let_def sum_countColumns validNumbers_def)

lemma wholeEntry_Ints: "wholeEntry x \<longleftrightarrow> numberOf x \<in> \<int>"
  by (auto simp: wholeEntry_def Ints_def)

lemma filter_valid_whole:
  "\<forall>x\<in>set xs. wholeEntry x \<Longrightarrow>
   length (filter (\<lambda>num. columnOf num \<noteq> None) (validNumbers xs)) = length (filter validEntry xs)"
proof (induction xs)
  case Nil
  then show ?case by (simp add: validNumbers_def)
next
  case (Cons x xs)
  then have w: "of_int \<lfloor>numberOf x\<rfloor> = numberOf x" and rest: "\<forall>x\<in>set xs. wholeEntry x"
    by (simp_all add: wholeEntry_def)
  have "isPositiveNumber x \<Longrightarrow> (columnOf (numberOf x) \<noteq> None) = validEntry x"
    using whole_in_some_column [OF w] by (simp add: validEntry_def)
  moreover have "\<not> isPositiveNumber x \<Longrightarrow> \<not> validEntry x"
    by (simp add: validEntry_def)
  ultimately show ?case
    using Cons.IH [OF rest] by (auto simp: validNumbers_def)
qed

text \<open>
  Claim C8, amended. For a candidate whose entries are whole numbers (or no numbers at all),
  the counts that \<^verbatim>\<open>validateTicketFormat\<close> returns add up to the number of entries that
  are numeric, positive and within 1-90. (A fraction between two column ranges, such as 9.5,
  is within 1-90 and is counted in no column: see the counterexample below.)
\<close>

theorem columnCounts_sum_whole_entries:
  "list_all wholeEntry (entries v) \<Longrightarrow>
   sum_list (columnCounts' (validateTicketFormat h v)) = length (filter validEntry (entries v))"
  using filter_valid_whole [of "entries v"] by (simp only: columnCounts_of_format list_all_iff)

theorem columnCounts_sum_whole_entries_witness:
  "list_all wholeEntry
     (entries (JArr [JNum 5, JNum 9, JNum 95, JNum (- 3), JStr ''x'', JNum 90])) \<and>
   sum_list (columnCounts' (validateTicketFormat plainHost
      (JArr [JNum 5, JNum 9, JNum 95, JNum (- 3), JStr ''x'', JNum 90]))) = 3 \<and>
   length (filter validEntry
      (entries (JArr [JNum 5, JNum 9, JNum 95, JNum (- 3), JStr ''x'', JNum 90]))) = 3"
  using columnCounts_sum_whole_entries
    [of "JArr [JNum 5, JNum 9, JNum 95, JNum (- 3), JStr ''x'', JNum 90]" plainHost]
  by (simp add: entries_def wholeEntry_Ints validEntry_def)

text \<open>
  The claim as stated, for every candidate, fails at the one-entry list \<open>[9.5]\<close>: the entry
  is numeric, positive and within 1-90, and the nine counts are all zero.
\<close>

lemma nine_and_a_half_in_no_column: "columnOf (19 / 2) = None"
  unfolding columnOf_None
  by (auto dest!: below_9 simp: inColumn_def columnRanges_def)

theorem columnCounts_sum_counterexample:
  "sum_list (columnCounts' (validateTicketFormat plainHost (JArr [JNum (19 / 2)])))
     \<noteq> length (filter validEntry (entries (JArr [JNum (19 / 2)])))"
  by (simp add: validateTicketFormat_def validNumbers_def countColumns_def countInColumn_def
        nine_and_a_half_in_no_column entries_def validEntry_def Let_def
        sum_list_replicate)

subsection \<open>Row placement deals the numbers to the rows in turn\<close>

lemma upt_0_3: "[0..<3] = [0, 1, 2]"
  by (simp add: upt_rec)

lemma roundRobin_cases:
  obtains a where "k = 3 * a" "k mod 3 = 0" "roundRobin k = [a, a, a]"
  | a where "k = 3 * a + 1" "k mod 3 = 1" "roundRobin k = [Suc a, a, a]"
  | a where "k = 3 * a + 2" "k mod 3 = 2" "roundRobin k = [Suc a, Suc a, a]"
proof -
  consider "k mod 3 = 0" | "k mod 3 = 1" | "k mod 3 = 2"
    by linarith
  then show ?thesis
  proof cases
    case 1
    then have a: "k = 3 * (k div 3)"
      by presburger
    from 1 have "(k + 2) div 3 = k div 3" "(k + 1) div 3 = k div 3"
      by presburger+
    then have r: "roundRobin k = [k div 3, k div 3, k div 3]"
      by (simp add: roundRobin_def)
    from a 1 r show ?thesis by (rule that(1))
  next
    case 2
    then have a: "k = 3 * (k div 3) + 1"
      by presburger
    from 2 have "(k + 2) div 3 = Suc (k div 3)" "(k + 1) div 3 = k div 3"
      by presburger+
    then have r: "roundRobin k = [Suc (k div 3), k div 3, k div 3]"
      by (simp add: roundRobin_def)
    from a 2 r show ?thesis by (rule that(2))
  next
    case 3
    then have a: "k = 3 * (k div 3) + 2"
      by presburger
    from 3 have "(k + 2) div 3 = Suc (k div 3)" "(k + 1) div 3 = Suc (k div 3)"
      by presburger+
    then have r: "roundRobin k = [Suc (k div 3), Suc (k div 3), k div 3]"
      by (simp add: roundRobin_def)
    from a 3 r show ?thesis by (rule that(3))
  qed
qed

lemma roundRobin_Suc:
  "roundRobin (Suc k) = (roundRobin k)[k mod 3 := roundRobin k ! (k mod 3) + 1]"
proof (cases k rule: roundRobin_cases)
  case (1 a)
  then show ?thesis by (simp add: roundRobin_def)
next
  case (2 a)
  then show ?thesis by (simp add: roundRobin_def)
next
  case (3 a)
  then show ?thesis by (simp add: roundRobin_def)
qed

lemma findBestRow_roundRobin:
  assumes "k < 15" "g ! (k mod 3) ! col = 0"
  shows "findBestRow g (roundRobin k) col = Some (k mod 3)"
proof (cases k rule: roundRobin_cases)
  case (1 a)
  with assms show ?thesis
    by (simp add: findBestRow_def betterRow_def upt_0_3)
next
  case (2 a)
  with assms show ?thesis
    by (simp add: findBestRow_def betterRow_def upt_0_3)
next
  case (3 a)
  with assms show ?thesis
    by (simp add: findBestRow_def betterRow_def upt_0_3)
qed

lemma placeNumber_roundRobin:
  assumes "k < 15" "g ! (k mod 3) ! col = 0"
  shows "placeNumber (g, roundRobin k) (n, col)
           = (g[k mod 3 := (g ! (k mod 3))[col := n]], roundRobin (Suc k))"
  using findBestRow_roundRobin [OF assms]
  by (simp add: placeNumber_def roundRobin_Suc)

lemma gridShape_rows:
  assumes "gridShape g"
  obtains r0 r1 r2 where "g = [r0, r1, r2]" "length r0 = 9" "length r1 = 9" "length r2 = 9"
proof -
  from assms have "length g = 3" by (simp add: gridShape_def)
  then obtain r0 r1 r2 where g: "g = [r0, r1, r2]"
    by (auto simp: length_Suc_conv numeral_3_eq_3)
  with assms that show ?thesis
    by (simp add: gridShape_def)
qed

lemma below_3: "(r::nat) < 3 \<Longrightarrow> r = 0 \<or> r = 1 \<or> r = 2"
  by arith

lemma mset_nonEmpty_update:
  assumes "i < length xs" "xs ! i = 0" "n \<noteq> 0"
  shows "mset (nonEmpty (xs[i := n])) = add_mset n (mset (nonEmpty xs))"
proof -
  have "mset (nonEmpty (xs[i := n])) = filter_mset (\<lambda>cell. cell \<noteq> 0) (add_mset n (mset xs - {#0#}))"
    using assms by (simp add: nonEmpty_def mset_update)
  also have "\<dots> = add_mset n (filter_mset (\<lambda>cell. cell \<noteq> 0) (mset xs - {#0#}))"
    using assms(3) by simp
  also have "filter_mset (\<lambda>cell. cell \<noteq> 0) (mset xs - {#0#}) = filter_mset (\<lambda>cell. cell \<noteq> 0) (mset xs)"
    by simp
  finally show ?thesis
    by (simp add: nonEmpty_def)
qed

lemma length_nonEmpty_update:
  assumes "i < length xs" "xs ! i = 0" "n \<noteq> 0"
  shows "length (nonEmpty (xs[i := n])) = Suc (length (nonEmpty xs))"
proof -
  have "size (mset (nonEmpty (xs[i := n]))) = size (add_mset n (mset (nonEmpty xs)))"
    using mset_nonEmpty_update [OF assms] by simp
  then show ?thesis by simp
qed

lemma nonEmpty_append: "nonEmpty (xs @ ys) = nonEmpty xs @ nonEmpty ys"
  by (simp add: nonEmpty_def)

text \<open>Writing a number into an empty cell of a well-shaped grid.\<close>

lemma write_cell:
  assumes "gridShape g" "r < 3" "col < 9" "g ! r ! col = 0" "n \<noteq> 0"
  defines "g' \<equiv> g[r := (g ! r)[col := n]]"
  shows "gridShape g'"
    and "\<forall>r'<3. numbersInRow g' r' = (if r' = r then Suc (numbersInRow g r') else numbersInRow g r')"
    and "\<forall>r'<3. \<forall>c<9. g' ! r' ! c = (if r' = r \<and> c = col then n else g ! r' ! c)"
    and "mset (nonEmpty (concat g')) = add_mset n (mset (nonEmpty (concat g)))"
proof -
  from assms(1) obtain r0 r1 r2 where g: "g = [r0, r1, r2]"
    and len: "length r0 = 9" "length r1 = 9" "length r2 = 9"
    by (rule gridShape_rows)
  from assms(2) consider "r = 0" | "r = 1" | "r = 2"
    using below_3 by blast
  then have all: "gridShape g' \<and>
    (\<forall>r'<3. numbersInRow g' r' = (if r' = r then Suc (numbersInRow g r') else numbersInRow g r')) \<and>
    (\<forall>r'<3. \<forall>c<9. g' ! r' ! c = (if r' = r \<and> c = col then n else g ! r' ! c)) \<and>
    mset (nonEmpty (concat g')) = add_mset n (mset (nonEmpty (concat g)))"
  proof cases
    case 1
    with assms(3-5) len show ?thesis
      unfolding g'_def g
      by (auto simp: gridShape_def numbersInRow_def length_nonEmpty_update
            mset_nonEmpty_update nonEmpty_append nth_list_update dest!: below_3)
  next
    case 2
    with assms(3-5) len show ?thesis
      unfolding g'_def g
      by (auto simp: gridShape_def numbersInRow_def length_nonEmpty_update
            mset_nonEmpty_update nonEmpty_append nth_list_update dest!: below_3)
  next
    case 3
    with assms(3-5) len show ?thesis
      unfolding g'_def g
      by (auto simp: gridShape_def numbersInRow_def length_nonEmpty_update
            mset_nonEmpty_update nonEmpty_append nth_list_update dest!: below_3)
  qed
  then show "gridShape g'"
    and "\<forall>r'<3. numbersInRow g' r' = (if r' = r then Suc (numbersInRow g r') else numbersInRow g r')"
    and "\<forall>r'<3. \<forall>c<9. g' ! r' ! c = (if r' = r \<and> c = col then n else g ! r' ! c)"
    and "mset (nonEmpty (concat g')) = add_mset n (mset (nonEmpty (concat g)))"
    by blast+
qed

lemma length_roundRobin: "length (roundRobin k) = 3"
  by (simp add: roundRobin_def)

lemma mod3_shift:
  assumes "i < 2"
  shows "(k mod 3 + Suc i) mod 3 \<noteq> k mod 3"
proof -
  have "k mod 3 < 3" by simp
  then have m: "k mod 3 = 0 \<or> k mod 3 = 1 \<or> k mod 3 = 2"
    by (rule below_3)
  from assms have i: "i = 0 \<or> i = 1"
    by arith
  from m i show ?thesis
    by auto
qed

lemma mod3_next:
  assumes "(r + Suc i) mod 3 = k mod 3"
  shows "(r + Suc (Suc i)) mod 3 = Suc k mod 3"
proof -
  have "(r + Suc (Suc i)) mod 3 = Suc ((r + Suc i) mod 3) mod 3"
    by (simp add: mod_Suc_eq)
  also have "\<dots> = Suc (k mod 3) mod 3"
    using assms by simp
  also have "\<dots> = Suc k mod 3"
    by (simp add: mod_Suc_eq)
  finally show ?thesis .
qed

lemma mod3_first: "(k mod 3 + Suc 0) mod 3 = Suc k mod 3"
  by (simp add: mod_Suc_eq)

lemma target_empty:
  assumes "\<forall>r<3. g ! r ! col \<noteq> 0 \<longrightarrow> (\<exists>i<j. (r + Suc i) mod 3 = k mod 3)" "j < 3"
  shows "g ! (k mod 3) ! col = 0"
proof (rule ccontr)
  assume "g ! (k mod 3) ! col \<noteq> 0"
  moreover have "k mod 3 < 3" by simp
  ultimately obtain i where i: "i < j" "(k mod 3 + Suc i) mod 3 = k mod 3"
    using assms(1) by blast
  from i(1) assms(2) have "i < 2" by simp
  with i(2) mod3_shift show False by blast
qed

lemma used_after_write:
  assumes used: "\<forall>r<3. g ! r ! col \<noteq> 0 \<longrightarrow> (\<exists>i<j. (r + Suc i) mod 3 = k mod 3)"
    and cells: "\<forall>r'<3. \<forall>c<9. g1 ! r' ! c = (if r' = k mod 3 \<and> c = col then n else g ! r' ! c)"
    and col: "col < 9"
  shows "\<forall>r<3. g1 ! r ! col \<noteq> 0 \<longrightarrow> (\<exists>i<Suc j. (r + Suc i) mod 3 = Suc k mod 3)"
proof (intro allI impI)
  fix r assume r3: "r < 3" and ne: "g1 ! r ! col \<noteq> 0"
  show "\<exists>i<Suc j. (r + Suc i) mod 3 = Suc k mod 3"
  proof (cases "r = k mod 3")
    case True
    then have "(r + Suc 0) mod 3 = Suc k mod 3"
      using mod3_first by simp
    then show ?thesis by blast
  next
    case False
    have "g1 ! r ! col = g ! r ! col"
      using cells r3 col False by simp
    with ne have "g ! r ! col \<noteq> 0" by simp
    with used r3 obtain i where i: "i < j" "(r + Suc i) mod 3 = k mod 3"
      by blast
    from i(2) have "(r + Suc (Suc i)) mod 3 = Suc k mod 3"
      by (rule mod3_next)
    with i(1) show ?thesis by blast
  qed
qed

lemma rows_after_write:
  assumes "\<forall>r<3. numbersInRow g r = roundRobin k ! r"
    and "\<forall>r'<3. numbersInRow g1 r' = (if r' = k mod 3 then Suc (numbersInRow g r') else numbersInRow g r')"
  shows "\<forall>r<3. numbersInRow g1 r = roundRobin (Suc k) ! r"
proof (intro allI impI)
  fix r :: nat assume r3: "r < 3"
  then have "roundRobin (Suc k) ! r = (if r = k mod 3 then Suc (roundRobin k ! r) else roundRobin k ! r)"
    by (simp add: roundRobin_Suc nth_list_update length_roundRobin)
  with assms r3 show "numbersInRow g1 r = roundRobin (Suc k) ! r"
    by simp
qed

lemma sum_list_roundRobin: "sum_list (roundRobin k) = k"
  by (cases k rule: roundRobin_cases) simp_all

lemma dealNumber_roundRobin:
  "dealNumber (g, roundRobin k) (n, col)
     = (g[k mod 3 := (g ! (k mod 3))[col := n]], roundRobin (Suc k))"
  by (simp add: dealNumber_def sum_list_roundRobin roundRobin_Suc Let_def)

lemma place_block:
  assumes step: "\<And>g k n col. k < 15 \<Longrightarrow> g ! (k mod 3) ! col = 0 \<Longrightarrow>
      f (g, roundRobin k) (n, col) = (g[k mod 3 := (g ! (k mod 3))[col := n]], roundRobin (Suc k))"
    and "gridShape g" "col < 9" "0 \<notin> set nums" "j + length nums \<le> 3" "k + length nums \<le> 15"
    and "\<forall>r<3. numbersInRow g r = roundRobin k ! r"
    and "\<forall>r<3. g ! r ! col \<noteq> 0 \<longrightarrow> (\<exists>i<j. (r + Suc i) mod 3 = k mod 3)"
  shows "\<exists>g'. foldl f (g, roundRobin k) (map (\<lambda>n. (n, col)) nums)
                 = (g', roundRobin (k + length nums))
           \<and> gridShape g'
           \<and> (\<forall>r<3. numbersInRow g' r = roundRobin (k + length nums) ! r)
           \<and> (\<forall>r<3. \<forall>c<9. c \<noteq> col \<longrightarrow> g' ! r ! c = g ! r ! c)
           \<and> mset (nonEmpty (concat g')) = mset (nonEmpty (concat g)) + mset nums
           \<and> foldl f (g, roundRobin k) (map (\<lambda>n. (n, col)) nums)
               = foldl dealNumber (g, roundRobin k) (map (\<lambda>n. (n, col)) nums)
           \<and> (\<forall>r<3. \<forall>c<9. g' ! r ! c = g ! r ! c \<or> c = col \<and> g' ! r ! c \<in> set nums)"
  using assms(2-)
proof (induction nums arbitrary: g k j)
  case Nil
  then show ?case by simp
next
  case (Cons n ns)
  let ?r = "k mod 3"
  let ?g1 = "g[?r := (g ! ?r)[col := n]]"
  have k: "k < 15" using Cons.prems(5) by simp
  have j: "j < 3" using Cons.prems(4) by simp
  have n: "n \<noteq> 0" using Cons.prems(3) by auto
  have r: "?r < 3" by simp
  have empty: "g ! ?r ! col = 0"
    using Cons.prems(7) j by (rule target_empty)
  have first: "f (g, roundRobin k) (n, col) = (?g1, roundRobin (Suc k))"
    using k empty by (rule step)
  note w = write_cell [OF Cons.prems(1) r Cons.prems(2) empty n]
  have rows1: "\<forall>r<3. numbersInRow ?g1 r = roundRobin (Suc k) ! r"
    using Cons.prems(6) w(2) by (rule rows_after_write)
  have used1: "\<forall>r<3. ?g1 ! r ! col \<noteq> 0 \<longrightarrow> (\<exists>i<Suc j. (r + Suc i) mod 3 = Suc k mod 3)"
    using Cons.prems(7) w(3) Cons.prems(2) by (rule used_after_write)
  have "\<exists>g'. foldl f (?g1, roundRobin (Suc k)) (map (\<lambda>n. (n, col)) ns)
                 = (g', roundRobin (Suc k + length ns))
           \<and> gridShape g'
           \<and> (\<forall>r<3. numbersInRow g' r = roundRobin (Suc k + length ns) ! r)
           \<and> (\<forall>r<3. \<forall>c<9. c \<noteq> col \<longrightarrow> g' ! r ! c = ?g1 ! r ! c)
           \<and> mset (nonEmpty (concat g')) = mset (nonEmpty (concat ?g1)) + mset ns
           \<and> foldl f (?g1, roundRobin (Suc k)) (map (\<lambda>n. (n, col)) ns)
               = foldl dealNumber (?g1, roundRobin (Suc k)) (map (\<lambda>n. (n, col)) ns)
           \<and> (\<forall>r<3. \<forall>c<9. g' ! r ! c = ?g1 ! r ! c \<or> c = col \<and> g' ! r ! c \<in> set ns)"
  proof (rule Cons.IH [OF w(1) Cons.prems(2) _ _ _ rows1 used1])
    show "0 \<notin> set ns" using Cons.prems(3) by simp
    show "Suc j + length ns \<le> 3" using Cons.prems(4) by simp
    show "Suc k + length ns \<le> 15" using Cons.prems(5) by simp
  qed
  then obtain g' where g':
    "foldl f (?g1, roundRobin (Suc k)) (map (\<lambda>n. (n, col)) ns)
       = (g', roundRobin (Suc k + length ns))"
    "gridShape g'"
    "\<forall>r<3. numbersInRow g' r = roundRobin (Suc k + length ns) ! r"
    "\<forall>r<3. \<forall>c<9. c \<noteq> col \<longrightarrow> g' ! r ! c = ?g1 ! r ! c"
    "mset (nonEmpty (concat g')) = mset (nonEmpty (concat ?g1)) + mset ns"
    "foldl f (?g1, roundRobin (Suc k)) (map (\<lambda>n. (n, col)) ns)
       = foldl dealNumber (?g1, roundRobin (Suc k)) (map (\<lambda>n. (n, col)) ns)"
    "\<forall>r<3. \<forall>c<9. g' ! r ! c = ?g1 ! r ! c \<or> c = col \<and> g' ! r ! c \<in> set ns"
    by blast
  have 1: "foldl f (g, roundRobin k) (map (\<lambda>n. (n, col)) (n # ns))
          = (g', roundRobin (k + length (n # ns)))"
    using g'(1) first by simp
  have 3: "\<forall>r<3. numbersInRow g' r = roundRobin (k + length (n # ns)) ! r"
    using g'(3) by simp
  have 4: "\<forall>r<3. \<forall>c<9. c \<noteq> col \<longrightarrow> g' ! r ! c = g ! r ! c"
    using g'(4) w(3) by simp
  have 5: "mset (nonEmpty (concat g')) = mset (nonEmpty (concat g)) + mset (n # ns)"
    using g'(5) w(4) by simp
  have 6: "foldl f (g, roundRobin k) (map (\<lambda>n. (n, col)) (n # ns))
          = foldl dealNumber (g, roundRobin k) (map (\<lambda>n. (n, col)) (n # ns))"
    using g'(6) first by (simp add: dealNumber_roundRobin)
  have 7: "\<forall>r<3. \<forall>c<9. g' ! r ! c = g ! r ! c \<or> c = col \<and> g' ! r ! c \<in> set (n # ns)"
  proof (intro allI impI)
    fix r c :: nat assume rc: "r < 3" "c < 9"
    from g'(7) rc have "g' ! r ! c = ?g1 ! r ! c \<or> c = col \<and> g' ! r ! c \<in> set ns"
      by blast
    moreover from w(3) rc have "?g1 ! r ! c = (if r = ?r \<and> c = col then n else g ! r ! c)"
      by blast
    ultimately show "g' ! r ! c = g ! r ! c \<or> c = col \<and> g' ! r ! c \<in> set (n # ns)"
      by (cases "r = ?r \<and> c = col") auto
  qed
  from 1 g'(2) 3 4 5 6 7 show ?case
    by blast
qed

lemma place_columns:
  assumes step: "\<And>g k n col. k < 15 \<Longrightarrow> g ! (k mod 3) ! col = 0 \<Longrightarrow>
      f (g, roundRobin k) (n, col) = (g[k mod 3 := (g ! (k mod 3))[col := n]], roundRobin (Suc k))"
    and "gridShape g" "distinct cs"
    and "\<forall>c\<in>set cs. c < 9 \<and> length (cols ! c) \<le> 3 \<and> 0 \<notin> set (cols ! c)"
    and "k + length (concat (map (\<lambda>c. cols ! c) cs)) \<le> 15"
    and "\<forall>r<3. numbersInRow g r = roundRobin k ! r"
    and "\<forall>c\<in>set cs. \<forall>r<3. g ! r ! c = 0"
  shows "\<exists>g'. foldl f (g, roundRobin k) (concat (map (columnBlock cols) cs))
                 = (g', roundRobin (k + length (concat (map (\<lambda>c. cols ! c) cs))))
           \<and> gridShape g'
           \<and> (\<forall>r<3. numbersInRow g' r = roundRobin (k + length (concat (map (\<lambda>c. cols ! c) cs))) ! r)
           \<and> mset (nonEmpty (concat g'))
               = mset (nonEmpty (concat g)) + mset (concat (map (\<lambda>c. cols ! c) cs))
           \<and> foldl f (g, roundRobin k) (concat (map (columnBlock cols) cs))
               = foldl dealNumber (g, roundRobin k) (concat (map (columnBlock cols) cs))
           \<and> (\<forall>r<3. \<forall>c<9. g' ! r ! c = g ! r ! c
                  \<or> c \<in> set cs \<and> g' ! r ! c \<in> set (cols ! c))"
  using assms(2-)
proof (induction cs arbitrary: g k)
  case Nil
  then show ?case by simp
next
  case (Cons c cs)
  let ?m = "length (cols ! c)"
  let ?rest = "length (concat (map (\<lambda>c. cols ! c) cs))"
  have c: "c < 9" "?m \<le> 3" "0 \<notin> set (cols ! c)"
    using Cons.prems(3) by simp_all
  have km: "k + ?m \<le> 15" using Cons.prems(4) by simp
  have unused: "\<forall>r<3. g ! r ! c \<noteq> 0 \<longrightarrow> (\<exists>i<0. (r + Suc i) mod 3 = k mod 3)"
    using Cons.prems(6) by simp
  have "0 + ?m \<le> 3" using c(2) by simp
  from place_block [of f, OF step Cons.prems(1) c(1) c(3) this km Cons.prems(5) unused]
  obtain g1 where g1:
    "foldl f (g, roundRobin k) (columnBlock cols c) = (g1, roundRobin (k + ?m))"
    "gridShape g1"
    "\<forall>r<3. numbersInRow g1 r = roundRobin (k + ?m) ! r"
    "\<forall>r<3. \<forall>c'<9. c' \<noteq> c \<longrightarrow> g1 ! r ! c' = g ! r ! c'"
    "mset (nonEmpty (concat g1)) = mset (nonEmpty (concat g)) + mset (cols ! c)"
    "foldl f (g, roundRobin k) (columnBlock cols c)
       = foldl dealNumber (g, roundRobin k) (columnBlock cols c)"
    "\<forall>r<3. \<forall>c'<9. g1 ! r ! c' = g ! r ! c' \<or> c' = c \<and> g1 ! r ! c' \<in> set (cols ! c)"
    unfolding columnBlock_def by blast
  have rest_ok: "\<forall>c\<in>set cs. c < 9 \<and> length (cols ! c) \<le> 3 \<and> 0 \<notin> set (cols ! c)"
    using Cons.prems(3) by simp
  have rest_len: "(k + ?m) + ?rest \<le> 15"
    using Cons.prems(4) by simp
  have rest_empty: "\<forall>c'\<in>set cs. \<forall>r<3. g1 ! r ! c' = 0"
  proof (intro ballI allI impI)
    fix c' r assume c': "c' \<in> set cs" and r: "r < (3::nat)"
    from c' Cons.prems(2) have "c' \<noteq> c" by auto
    moreover from c' rest_ok have "c' < 9" by simp
    ultimately have "g1 ! r ! c' = g ! r ! c'"
      using g1(4) r by simp
    also have "\<dots> = 0"
      using Cons.prems(6) c' r by simp
    finally show "g1 ! r ! c' = 0" .
  qed
  have dist: "distinct cs" using Cons.prems(2) by simp
  from Cons.IH [OF g1(2) dist rest_ok rest_len g1(3) rest_empty]
  obtain g' where g':
    "foldl f (g1, roundRobin (k + ?m)) (concat (map (columnBlock cols) cs))
       = (g', roundRobin (k + ?m + ?rest))"
    "gridShape g'"
    "\<forall>r<3. numbersInRow g' r = roundRobin (k + ?m + ?rest) ! r"
    "mset (nonEmpty (concat g')) = mset (nonEmpty (concat g1)) + mset (concat (map (\<lambda>c. cols ! c) cs))"
    "foldl f (g1, roundRobin (k + ?m)) (concat (map (columnBlock cols) cs))
       = foldl dealNumber (g1, roundRobin (k + ?m)) (concat (map (columnBlock cols) cs))"
    "\<forall>r<3. \<forall>c'<9. g' ! r ! c' = g1 ! r ! c' \<or> c' \<in> set cs \<and> g' ! r ! c' \<in> set (cols ! c')"
    by blast
  have total: "k + length (concat (map (\<lambda>c. cols ! c) (c # cs))) = k + ?m + ?rest"
    by simp
  have 1: "foldl f (g, roundRobin k) (concat (map (columnBlock cols) (c # cs)))
            = (g', roundRobin (k + length (concat (map (\<lambda>c. cols ! c) (c # cs)))))"
    unfolding total using g1(1) g'(1) by simp
  have 3: "\<forall>r<3. numbersInRow g' r
            = roundRobin (k + length (concat (map (\<lambda>c. cols ! c) (c # cs)))) ! r"
    unfolding total using g'(3) .
  have 4: "mset (nonEmpty (concat g'))
            = mset (nonEmpty (concat g)) + mset (concat (map (\<lambda>c. cols ! c) (c # cs)))"
    using g'(4) g1(5) by simp
  have 5: "foldl f (g, roundRobin k) (concat (map (columnBlock cols) (c # cs)))
            = foldl dealNumber (g, roundRobin k) (concat (map (columnBlock cols) (c # cs)))"
    using g1(1) g1(6) g'(5) by simp
  have 6: "\<forall>r<3. \<forall>c'<9. g' ! r ! c' = g ! r ! c'
              \<or> c' \<in> set (c # cs) \<and> g' ! r ! c' \<in> set (cols ! c')"
  proof (intro allI impI)
    fix r c' :: nat assume rc: "r < 3" "c' < 9"
    from g'(6) rc have a: "g' ! r ! c' = g1 ! r ! c' \<or> c' \<in> set cs \<and> g' ! r ! c' \<in> set (cols ! c')"
      by blast
    from g1(7) rc have b: "g1 ! r ! c' = g ! r ! c' \<or> c' = c \<and> g1 ! r ! c' \<in> set (cols ! c)"
      by blast
    from a b show "g' ! r ! c' = g ! r ! c'
              \<or> c' \<in> set (c # cs) \<and> g' ! r ! c' \<in> set (cols ! c')"
      by auto
  qed
  from 1 g'(2) 3 4 5 6 show ?case by blast
qed

lemma tags_columnBlock: "map snd (columnBlock cols col) = replicate (length (cols ! col)) col"
  by (simp add: columnBlock_def comp_def map_replicate_const)

lemma sorted_column_tags:
  "sorted (map snd (concat (map (columnBlock cols) [i..<j])))"
proof (induction j)
  case 0
  then show ?case by simp
next
  case (Suc j)
  show ?case
  proof (cases "i \<le> j")
    case True
    have "\<forall>x\<in>set (concat (map (columnBlock cols) [i..<j])). snd x < j"
      by (auto simp: columnBlock_def)
    with True Suc show ?thesis
      by (fastforce simp: sorted_append tags_columnBlock)
  next
    case False
    then show ?thesis by simp
  qed
qed

lemma allNumbers_blocks: "allNumbers cols = concat (map (columnBlock cols) [0..<9])"
proof -
  have "(\<lambda>col. map (\<lambda>num. (num, col)) (cols ! col)) = columnBlock cols"
    by (simp add: columnBlock_def fun_eq_iff)
  then show ?thesis
    unfolding allNumbers_def
    by (simp only: sort_key_id_if_sorted [OF sorted_column_tags])
qed

lemma emptyGrid_shape: "gridShape emptyGrid"
  by (simp add: gridShape_def emptyGrid_def numeral_3_eq_3)

lemma emptyGrid_cells: "r < 3 \<Longrightarrow> c < 9 \<Longrightarrow> emptyGrid ! r ! c = 0"
  by (simp add: emptyGrid_def)

lemma emptyGrid_rows: "r < 3 \<Longrightarrow> numbersInRow emptyGrid r = 0"
  by (simp add: emptyGrid_def numbersInRow_def nonEmpty_def)

lemma emptyGrid_nonEmpty: "nonEmpty (concat emptyGrid) = []"
  by (simp add: emptyGrid_def nonEmpty_def numeral_3_eq_3)

lemma roundRobin_0: "roundRobin 0 = [0, 0, 0]"
  by (simp add: roundRobin_def)

lemma roundRobin_15: "roundRobin 15 = [5, 5, 5]"
  by (simp add: roundRobin_def)

lemma placeNumbers_fills:
  assumes "length cols = 9" "list_all (\<lambda>c. length c \<le> 3) cols" "length (concat cols) = 15"
    "0 \<notin> set (concat cols)"
  shows "\<exists>g. placeNumbers cols = (g, [5, 5, 5]) \<and> gridShape g
           \<and> (\<forall>r<3. numbersInRow g r = 5)
           \<and> mset (nonEmpty (concat g)) = mset (concat cols)
           \<and> (\<forall>r<3. \<forall>c<9. g ! r ! c = 0 \<or> g ! r ! c \<in> set (cols ! c))"
proof -
  have flat: "concat (map (\<lambda>c. cols ! c) [0..<9]) = concat cols"
    using assms(1) map_nth [of cols] by simp
  have each: "\<forall>c\<in>set [0..<9]. c < 9 \<and> length (cols ! c) \<le> 3 \<and> 0 \<notin> set (cols ! c)"
    using assms(1,2,4) by (auto simp: list_all_length)
  have len: "0 + length (concat (map (\<lambda>c. cols ! c) [0..<9])) \<le> 15"
    using assms(3) flat by simp
  have rows0: "\<forall>r<3. numbersInRow emptyGrid r = roundRobin 0 ! r"
    by (auto simp: emptyGrid_rows roundRobin_0 dest!: below_3)
  have cells0: "\<forall>c\<in>set [0..<9]. \<forall>r<3. emptyGrid ! r ! c = 0"
    by (simp add: emptyGrid_cells)
  from place_columns [of placeNumber, OF placeNumber_roundRobin emptyGrid_shape distinct_upt each len rows0 cells0]
  obtain g where g:
    "foldl placeNumber (emptyGrid, roundRobin 0) (concat (map (columnBlock cols) [0..<9]))
       = (g, roundRobin (0 + length (concat (map (\<lambda>c. cols ! c) [0..<9]))))"
    "gridShape g"
    "\<forall>r<3. numbersInRow g r = roundRobin (0 + length (concat (map (\<lambda>c. cols ! c) [0..<9]))) ! r"
    "mset (nonEmpty (concat g))
       = mset (nonEmpty (concat emptyGrid)) + mset (concat (map (\<lambda>c. cols ! c) [0..<9]))"
    "\<forall>r<3. \<forall>c<9. g ! r ! c = emptyGrid ! r ! c
        \<or> c \<in> set [0..<9] \<and> g ! r ! c \<in> set (cols ! c)"
    by blast
  have fifteen: "0 + length (concat (map (\<lambda>c. cols ! c) [0..<9])) = 15"
    using assms(3) flat by simp
  have 1: "placeNumbers cols = (g, [5, 5, 5])"
    using g(1) unfolding fifteen roundRobin_15 roundRobin_0 placeNumbers_def allNumbers_blocks .
  have 3: "\<forall>r<3. numbersInRow g r = 5"
    using g(3) unfolding fifteen roundRobin_15 by (auto dest!: below_3)
  have 4: "mset (nonEmpty (concat g)) = mset (concat cols)"
    using g(4) unfolding flat emptyGrid_nonEmpty by simp
  have 5: "\<forall>r<3. \<forall>c<9. g ! r ! c = 0 \<or> g ! r ! c \<in> set (cols ! c)"
    using g(5) by (auto simp: emptyGrid_cells)
  from 1 g(2) 3 4 5 show ?thesis by blast
qed

text \<open>
  Claim C3. Take nine columns of numbers (a number is not 0, the empty cell), none with
  more than three numbers and fifteen numbers in all. The generator's row placement, which
  goes through the numbers in column order and puts each into the row with the fewest numbers
  among the rows with fewer than five numbers and an empty cell in that column, the lowest
  such row on a tie, skips no number: the row counts end at 5, 5, 5, every row of the grid
  holds exactly five numbers, and the numbers in the grid are the numbers given.
\<close>

theorem greedy_placement_fills_rows:
  assumes "length cols = 9" and "list_all (\<lambda>c. length c \<le> 3) cols"
    and "length (concat cols) = 15" and "0 \<notin> set (concat cols)"
  shows "snd (placeNumbers cols) = [5, 5, 5] \<and>
         fivePerRow (fst (placeNumbers cols)) \<and>
         mset (nonEmpty (concat (fst (placeNumbers cols)))) = mset (concat cols)"
proof -
  from placeNumbers_fills [OF assms] obtain g where g:
    "placeNumbers cols = (g, [5, 5, 5])" "\<forall>r<3. numbersInRow g r = 5"
    "mset (nonEmpty (concat g)) = mset (concat cols)"
    by blast
  from g(2) have "fivePerRow g"
    by (simp add: fivePerRow_def list_all_iff)
  with g(1,3) show ?thesis
    by simp
qed

theorem greedy_placement_fills_rows_witness:
  "length sampleColumns = 9 \<and> list_all (\<lambda>c. length c \<le> 3) sampleColumns \<and>
   length (concat sampleColumns) = 15 \<and> 0 \<notin> set (concat sampleColumns) \<and>
   snd (placeNumbers sampleColumns) = [5, 5, 5] \<and>
   fivePerRow (fst (placeNumbers sampleColumns)) \<and>
   mset (nonEmpty (concat (fst (placeNumbers sampleColumns)))) = mset (concat sampleColumns)"
  using greedy_placement_fills_rows [of sampleColumns]
  by (simp add: sampleColumns_def)

subsection \<open>What the generator returns\<close>

lemma upt_pairs:
  "set (concat (map (\<lambda>col. map (\<lambda>row. (col, row)) [0..<3]) [0..<9]))
     = {(col, row). col < 9 \<and> row < (3::nat)}"
  by auto

lemma validateTicket_passes:
  assumes "validateTicket g = None"
  shows "fivePerRow g" "atMostThreePerColumn g" "fifteenNumbers g" "withinColumnRanges g"
    "pairwiseDistinct g"
proof -
  from assms have rows: "find (\<lambda>row. numbersInRow g row \<noteq> 5) [0..<3] = None"
    by (simp add: validateTicket_def split: option.splits)
  with assms have cols: "find (\<lambda>col. 3 < numbersInCol g col) [0..<9] = None"
    by (simp add: validateTicket_def split: option.splits)
  with assms rows have total: "length (nonEmpty (concat g)) = 15"
    by (simp add: validateTicket_def split: if_splits)
  with assms rows cols have range:
    "find (outsideRange g) (concat (map (\<lambda>col. map (\<lambda>row. (col, row)) [0..<3]) [0..<9])) = None"
    by (simp add: validateTicket_def split: option.splits prod.splits)
  with assms rows cols total have dup: "15 = card (set (nonEmpty (concat g)))"
    by (simp add: validateTicket_def split: if_splits)
  from rows show "fivePerRow g"
    by (simp add: fivePerRow_def find_None_iff list_all_iff)
  show "atMostThreePerColumn g"
    unfolding atMostThreePerColumn_def list_all_iff
  proof
    fix col assume "col \<in> set [0..<9]"
    with cols have "\<not> 3 < numbersInCol g col"
      unfolding find_None_iff by blast
    then show "numbersInCol g col \<le> 3"
      by simp
  qed
  from total show "fifteenNumbers g"
    by (simp add: fifteenNumbers_def)
  from range have inside: "\<And>col row. col < 9 \<Longrightarrow> row < 3 \<Longrightarrow> \<not> outsideRange g (col, row)"
    unfolding find_None_iff upt_pairs by simp
  show "withinColumnRanges g"
    unfolding withinColumnRanges_def list_all_iff
  proof (intro ballI)
    fix col row assume "col \<in> set [0..<9]" "row \<in> set [0..<3]"
    then have "\<not> outsideRange g (col, row)"
      using inside by simp
    then show "cellInRange g col row"
      by (simp add: cellInRange_def outsideRange_def Let_def not_less)
  qed
  from dup total show "pairwiseDistinct g"
    by (simp add: pairwiseDistinct_def card_distinct)
qed

lemma generate_returns:
  assumes "generateHousieTicket rnd = Some (Inr t)"
  shows "\<exists>s :: gen_state. grid t = fst (placeNumbers (columnNumbers s))
           \<and> flatNumbers t = sort (nonEmpty (concat (grid t)))
           \<and> validateTicket (grid t) = None"
proof -
  from assms obtain s :: gen_state where "finishTicket s = Inr t"
    by (auto simp: generateHousieTicket_def split: bind_splits)
  then have "grid t = fst (placeNumbers (columnNumbers s))
      \<and> flatNumbers t = sort (nonEmpty (concat (grid t))) \<and> validateTicket (grid t) = None"
    by (auto simp: finishTicket_def Let_def split: option.splits)
  then show ?thesis ..
qed

lemma gridShape_update:
  assumes "gridShape g"
  shows "gridShape (g[r := (g ! r)[c := n]])"
proof -
  from assms obtain r0 r1 r2 where "g = [r0, r1, r2]" "length r0 = 9" "length r1 = 9" "length r2 = 9"
    by (rule gridShape_rows)
  then show ?thesis
    by (cases r rule: nat.exhaust [case_product nat.exhaust [case_product nat.exhaust]])
       (auto simp: gridShape_def nth_Cons split: nat.splits)
qed

lemma gridShape_placeNumber: "gridShape (fst st) \<Longrightarrow> gridShape (fst (placeNumber st nc))"
  by (simp add: placeNumber_def gridShape_update split: option.splits)

lemma gridShape_foldl_placeNumber:
  "gridShape (fst st) \<Longrightarrow> gridShape (fst (foldl placeNumber st ncs))"
  by (induction ncs arbitrary: st) (simp_all add: gridShape_placeNumber)

lemma gridShape_placeNumbers: "gridShape (fst (placeNumbers cols))"
  by (simp add: placeNumbers_def gridShape_foldl_placeNumber emptyGrid_shape)

text \<open>
  Claim C1. Whenever \<^verbatim>\<open>generateHousieTicket\<close> returns a ticket, its grid has three rows of
  nine cells and satisfies invariants 1-5: fifteen numbers in all, five in each row, at most
  three in each column, every number within the range of its column, and no number twice.
  (The generator runs its self-check \<^verbatim>\<open>validateTicket\<close> on the grid and returns only
  when no check throws.)
\<close>

theorem generated_ticket_invariants:
  "generateHousieTicket rnd = Some (Inr t) \<Longrightarrow>
   gridShape (grid t) \<and> fifteenNumbers (grid t) \<and> fivePerRow (grid t) \<and>
   atMostThreePerColumn (grid t) \<and> withinColumnRanges (grid t) \<and> pairwiseDistinct (grid t)"
proof -
  assume "generateHousieTicket rnd = Some (Inr t)"
  from generate_returns [OF this]
  obtain s :: gen_state where s: "grid t = fst (placeNumbers (columnNumbers s))"
    and ok: "validateTicket (grid t) = None"
    by blast
  from s have "gridShape (grid t)"
    by (simp add: gridShape_placeNumbers)
  with validateTicket_passes [OF ok] show ?thesis
    by simp
qed

lemma at_most_one_match:
  assumes "\<And>i. i < length xs \<Longrightarrow> P (xs ! i) \<Longrightarrow> i = c"
  shows "length (filter P xs) \<le> 1"
proof -
  have "{i. i < length xs \<and> P (xs ! i)} \<subseteq> {c}"
    using assms by auto
  then have "card {i. i < length xs \<and> P (xs ! i)} \<le> card {c}"
    by (intro card_mono) auto
  then show ?thesis
    by (simp add: length_filter_conv_card)
qed

lemma inColumn_unique:
  assumes "inColumn q a" "inColumn q b" "a < 9" "b < 9"
  shows "a = b"
proof (rule ccontr)
  assume "a \<noteq> b"
  then consider "a < b" | "b < a" by linarith
  then show False
    using assms columns_separate [of a b q] columns_separate [of b a q] by cases blast+
qed

lemma row_matches_at_most_one:
  assumes row: "length row = 9"
    and inr: "\<And>c. c < 9 \<Longrightarrow> row ! c = 0 \<or> inColumn (of_int (row ! c)) c"
    and col: "col < 9"
  shows "length (filter (\<lambda>x. inColumn (of_int x) col) (nonEmpty row)) \<le> 1"
proof -
  have "length (filter (\<lambda>x. x \<noteq> 0 \<and> inColumn (of_int x) col) row) \<le> 1"
  proof (rule at_most_one_match [where c = col])
    fix i assume i: "i < length row" and m: "row ! i \<noteq> 0 \<and> inColumn (of_int (row ! i)) col"
    from i row have i9: "i < 9" by simp
    with inr [of i] m have "inColumn (of_int (row ! i)) i" by simp
    with m i9 col show "i = col"
      using inColumn_unique by blast
  qed
  then show ?thesis
    by (simp add: nonEmpty_def)
qed

lemma cell_in_column:
  assumes "withinColumnRanges g" "row < 3" "col < 9"
  shows "g ! row ! col = 0 \<or> inColumn (of_int (g ! row ! col)) col"
proof -
  from assms have "cellInRange g col row"
    by (simp add: withinColumnRanges_def list_all_iff)
  then show ?thesis
    by (simp add: cellInRange_def inColumn_def)
qed

lemma grid_matches_at_most_three:
  assumes "gridShape g" "withinColumnRanges g" "col < 9"
  shows "length (filter (\<lambda>x. inColumn (of_int x) col) (nonEmpty (concat g))) \<le> 3"
proof -
  from assms(1) obtain r0 r1 r2 where g: "g = [r0, r1, r2]"
    and len: "length r0 = 9" "length r1 = 9" "length r2 = 9"
    by (rule gridShape_rows)
  have c0: "\<And>c. c < 9 \<Longrightarrow> r0 ! c = 0 \<or> inColumn (of_int (r0 ! c)) c"
    using cell_in_column [OF assms(2), of 0] by (simp add: g)
  have c1: "\<And>c. c < 9 \<Longrightarrow> r1 ! c = 0 \<or> inColumn (of_int (r1 ! c)) c"
    using cell_in_column [OF assms(2), of 1] by (simp add: g)
  have c2: "\<And>c. c < 9 \<Longrightarrow> r2 ! c = 0 \<or> inColumn (of_int (r2 ! c)) c"
    using cell_in_column [OF assms(2), of 2] by (simp add: g)
  note row_matches_at_most_one [OF len(1) c0 assms(3)]
    row_matches_at_most_one [OF len(2) c1 assms(3)]
    row_matches_at_most_one [OF len(3) c2 assms(3)]
  then show ?thesis
    by (simp add: g nonEmpty_append)
qed

lemma grid_number_in_column:
  assumes "gridShape g" "withinColumnRanges g" "x \<in> set (nonEmpty (concat g))"
  shows "\<exists>col<9. inColumn (of_int x) col"
proof -
  from assms(3) have x: "x \<noteq> 0" "x \<in> set (concat g)"
    by (simp_all add: nonEmpty_def)
  then obtain row where "row \<in> set g" "x \<in> set row"
    by auto
  then obtain r c where r: "r < length g" "row = g ! r" and c: "c < length row" "x = row ! c"
    by (metis in_set_conv_nth)
  from assms(1) r have r3: "r < 3" "length row = 9"
    by (simp_all add: gridShape_def list_all_length)
  with c have c9: "c < 9" by simp
  from cell_in_column [OF assms(2) r3(1) c9] x(1) r(2) c(2)
  have "inColumn (of_int x) c" by simp
  with c9 show ?thesis by blast
qed

lemma in_column_within_1_90:
  assumes "col < 9" "inColumn (of_int x) col"
  shows "1 \<le> x \<and> x \<le> 90"
proof -
  from assms(2) have "fst (columnRanges ! col) \<le> x \<and> x \<le> snd (columnRanges ! col)"
    by (simp add: inColumn_def)
  with assms(1) show ?thesis
    by (auto simp: column_lo column_hi split: if_splits)
qed

lemma validNumbers_of_positive:
  "\<forall>x\<in>set xs. 0 < x \<Longrightarrow> validNumbers (map (\<lambda>n. JNum (of_int n)) xs) = map of_int xs"
  by (induction xs) (simp_all add: validNumbers_def)

lemma length_filter_sort:
  "length (filter P (sort xs)) = length (filter P xs)"
proof -
  have "mset (filter P (sort xs)) = mset (filter P xs)"
    by simp
  then show ?thesis
    by (metis size_mset)
qed

lemma candidateList_flat:
  "candidateList h (flatCandidate ns) = Some (map (\<lambda>n. JNum (of_int n)) ns)"
  by (cases ns) (simp_all add: candidateList_def flatCandidate_def)

lemma valid_grid_numbers_pass:
  assumes shape: "gridShape g" and range: "withinColumnRanges g"
    and fifteen: "fifteenNumbers g" and dist: "pairwiseDistinct g"
  shows "checkTicketNumbers h (map (\<lambda>n. JNum (of_int n)) (sort (nonEmpty (concat g))))
           = \<lparr>isValid = True, issues = []\<rparr>"
proof -
  let ?X = "nonEmpty (concat g)"
  let ?nums = "map rat_of_int (sort ?X)"
  have bounds: "\<And>x. x \<in> set ?X \<Longrightarrow> 1 \<le> x \<and> x \<le> 90"
    using grid_number_in_column [OF shape range] in_column_within_1_90 by blast
  then have pos: "\<forall>x\<in>set (sort ?X). 0 < x"
    by fastforce
  have nums: "validNumbers (map (\<lambda>n. JNum (of_int n)) (sort ?X)) = ?nums"
    using pos by (rule validNumbers_of_positive)
  have len: "length ?nums = 15"
    using fifteen by (simp add: fifteenNumbers_def)
  have "distinct ?nums"
    using dist by (simp add: pairwiseDistinct_def distinct_map inj_on_def)
  then have card: "card (set ?nums) = length ?nums"
    by (rule distinct_card)
  have inrange: "filter (\<lambda>num. num < 1 \<or> 90 < num) ?nums = []"
  proof -
    have "\<And>q. q \<in> set ?nums \<Longrightarrow> \<not> (q < 1 \<or> 90 < q)"
    proof -
      fix q assume "q \<in> set ?nums"
      then obtain x where x: "x \<in> set ?X" "q = of_int x" by auto
      from bounds [OF x(1)] have "(1::rat) \<le> of_int x \<and> of_int x \<le> (90::rat)"
        by (metis of_int_1 of_int_le_iff of_int_numeral)
      with x(2) show "\<not> (q < 1 \<or> 90 < q)" by simp
    qed
    then show ?thesis
      by (simp add: filter_empty_conv)
  qed
  have counts: "\<And>col. col < 9 \<Longrightarrow> countColumns ?nums ! col \<le> 3"
  proof -
    fix col :: nat assume col: "col < 9"
    have "countColumns ?nums ! col = length (filter (\<lambda>num. inColumn num col) ?nums)"
      using col by (rule nth_countColumns)
    also have "\<dots> = length (filter (\<lambda>x. inColumn (of_int x) col) (sort ?X))"
      by (simp add: filter_map comp_def)
    also have "\<dots> = length (filter (\<lambda>x. inColumn (of_int x) col) ?X)"
      by (rule length_filter_sort)
    also have "\<dots> \<le> 3"
      using shape range col by (rule grid_matches_at_most_three)
    finally show "countColumns ?nums ! col \<le> 3" .
  qed
  have nocol: "filter (\<lambda>col. 3 < countColumns ?nums ! col) [0..<length (countColumns ?nums)] = []"
    using counts by (auto simp: filter_empty_conv length_countColumns not_less)
  have i1: "countIssues ?nums = []"
    using len by (simp add: countIssues_def)
  have i2: "duplicateIssues ?nums = []"
    using card by (simp add: duplicateIssues_def)
  have i3: "rangeIssues h ?nums = []"
    unfolding rangeIssues_def inrange by simp
  have i4: "columnIssues (countColumns ?nums) = []"
    unfolding columnIssues_def nocol by simp
  have i5: "\<not> hasColumnIssues (countColumns ?nums)"
    unfolding hasColumnIssues_def nocol by simp
  show ?thesis
    unfolding checkTicketNumbers_def nums Let_def i1 i2 i3 i4 using i5 by simp
qed

text \<open>
  Claim C2. Whenever \<^verbatim>\<open>generateHousieTicket\<close> returns a ticket, \<^verbatim>\<open>validateExistingTicket\<close>
  applied to the array of its \<^verbatim>\<open>flatNumbers\<close> returns \<^verbatim>\<open>isValid: true\<close> and no issue.
\<close>

theorem generated_flat_list_validates:
  "generateHousieTicket rnd = Some (Inr t) \<Longrightarrow>
   validateExistingTicket h (flatCandidate (flatNumbers t)) = \<lparr>isValid = True, issues = []\<rparr>"
proof -
  assume gen: "generateHousieTicket rnd = Some (Inr t)"
  from generate_returns [OF gen]
  obtain s :: gen_state where s: "grid t = fst (placeNumbers (columnNumbers s))"
    and fl: "flatNumbers t = sort (nonEmpty (concat (grid t)))"
    and ok: "validateTicket (grid t) = None"
    by blast
  have shape: "gridShape (grid t)"
    using s by (simp add: gridShape_placeNumbers)
  note inv = validateTicket_passes [OF ok]
  have "validateExistingTicket h (flatCandidate (flatNumbers t))
          = checkTicketNumbers h (map (\<lambda>n. JNum (of_int n)) (flatNumbers t))"
    using candidateList_flat by (rule validate_coerced)
  also have "\<dots> = \<lparr>isValid = True, issues = []\<rparr>"
    unfolding fl using shape inv(4) inv(3) inv(5) by (rule valid_grid_numbers_pass)
  finally show ?thesis .
qed

subsection \<open>The generator always returns a ticket\<close>

text \<open>
  When every call of \<^verbatim>\<open>Math.random()\<close> returns a number in [0, 1), the three loops
  terminate and the self-check throws nothing: the first sweep of the first loop adds a number
  to every column, each pass of the second loop adds a number while fewer than fifteen are
  chosen, and the third loop has nothing to remove.
\<close>

lemma random_index:
  assumes "validRandom rnd" "0 < n"
  shows "nat \<lfloor>rnd k * of_nat n\<rfloor> < n"
proof -
  from assms(1) have r: "0 \<le> rnd k" "rnd k < 1"
    by (simp_all add: validRandom_def)
  have "rnd k * of_nat n < 1 * of_nat n"
    using r(2) assms(2) by (intro mult_strict_right_mono) simp_all
  then have "\<lfloor>rnd k * of_nat n\<rfloor> < int n"
    by (simp add: floor_less_iff)
  moreover have "0 \<le> \<lfloor>rnd k * of_nat n\<rfloor>"
    using r(1) by simp
  ultimately show ?thesis by linarith
qed

lemma random_batch:
  assumes "validRandom rnd"
  shows "\<lfloor>rnd k * 2\<rfloor> + 1 = 1 \<or> \<lfloor>rnd k * 2\<rfloor> + 1 = 2"
proof -
  have "nat \<lfloor>rnd k * of_nat 2\<rfloor> < 2"
    using assms by (rule random_index) simp
  then have "nat \<lfloor>rnd k * 2\<rfloor> < 2"
    by simp
  moreover have "0 \<le> rnd k * 2"
    using assms by (simp add: validRandom_def)
  then have "0 \<le> \<lfloor>rnd k * 2\<rfloor>"
    by (simp only: zero_le_floor)
  ultimately show ?thesis by linarith
qed

lemma mset_shuffleFrom:
  assumes "validRandom rnd"
  shows "i < length xs \<Longrightarrow> mset (fst (shuffleFrom rnd i (xs, k))) = mset xs"
proof (induction i arbitrary: xs k)
  case 0
  show ?case by simp
next
  case (Suc i)
  let ?j = "nat \<lfloor>rnd k * of_nat (Suc i + 1)\<rfloor>"
  let ?ys = "xs[Suc i := xs ! ?j, ?j := xs ! Suc i]"
  have "?j < Suc i + 1"
    using assms by (rule random_index) simp
  with Suc.prems have j: "?j < length xs" by simp
  have swap: "mset ?ys = mset xs"
    using j Suc.prems by (rule mset_swap)
  have "i < length ?ys" using Suc.prems by simp
  then have "mset (fst (shuffleFrom rnd i (?ys, Suc k))) = mset ?ys"
    by (rule Suc.IH)
  with swap show ?case
    by (simp add: Let_def)
qed

lemma mset_shuffleArray:
  assumes "validRandom rnd"
  shows "mset (fst (shuffleArray rnd (xs, k))) = mset xs"
proof (cases xs)
  case Nil
  then show ?thesis by (simp add: shuffleArray_def)
next
  case (Cons x xs')
  then have "length xs - 1 < length xs" by simp
  with mset_shuffleFrom [OF assms] show ?thesis
    by (simp add: shuffleArray_def)
qed

lemma length_concat_update:
  assumes "i < length xss"
  shows "int (length (concat (xss[i := ys])))
           = int (length (concat xss)) + int (length ys) - int (length (xss ! i))"
proof -
  have "length (xss ! i) \<le> sum_list (map length xss)"
    using assms by (simp add: member_le_sum_list)
  moreover have "sum_list ((map length xss)[i := length ys])
      = sum_list (map length xss) + length ys - map length xss ! i"
    using assms by (simp add: sum_list_update)
  ultimately show ?thesis
    using assms by (simp add: length_concat map_update)
qed

lemma goodState_column:
  assumes good: "goodState s" and col: "col < 9"
    and new: "distinct new" "inOwnRange col new" "length new \<le> 3"
    and room: "totalNumbers s + int (length new) - int (length (columnNumbers s ! col)) \<le> 15"
    and cc: "columnCounts s' = (columnCounts s)[col := int (length new)]"
    and cn: "columnNumbers s' = (columnNumbers s)[col := new]"
    and tot: "totalNumbers s' = totalNumbers s + int (length new) - int (length (columnNumbers s ! col))"
  shows "goodState s'"
proof -
  from good have len: "length (columnCounts s) = 9" "length (columnNumbers s) = 9"
    and each: "\<And>c. c < 9 \<Longrightarrow> columnCounts s ! c = int (length (columnNumbers s ! c)) \<and>
              length (columnNumbers s ! c) \<le> 3 \<and> distinct (columnNumbers s ! c) \<and>
              inOwnRange c (columnNumbers s ! c)"
    and total: "totalNumbers s = int (length (concat (columnNumbers s)))"
    by (simp_all add: goodState_def)
  have each': "\<forall>c<9. columnCounts s' ! c = int (length (columnNumbers s' ! c)) \<and>
              length (columnNumbers s' ! c) \<le> 3 \<and> distinct (columnNumbers s' ! c) \<and>
              inOwnRange c (columnNumbers s' ! c)"
  proof (intro allI impI)
    fix c :: nat assume c: "c < 9"
    show "columnCounts s' ! c = int (length (columnNumbers s' ! c)) \<and>
              length (columnNumbers s' ! c) \<le> 3 \<and> distinct (columnNumbers s' ! c) \<and>
              inOwnRange c (columnNumbers s' ! c)"
    proof (cases "c = col")
      case True
      with new len col show ?thesis by (simp add: cc cn)
    next
      case False
      with each [OF c] show ?thesis by (simp add: cc cn)
    qed
  qed
  have "totalNumbers s' = int (length (concat (columnNumbers s')))"
    using col len by (simp add: tot cn total length_concat_update)
  with each' room len show ?thesis
    by (simp add: goodState_def cc cn tot)
qed

lemma availableNumbers_distinct: "distinct (availableNumbers s col)"
  by (simp add: availableNumbers_def)

lemma availableNumbers_fresh: "n \<in> set (availableNumbers s col) \<Longrightarrow> n \<notin> set (columnNumbers s ! col)"
  by (simp add: availableNumbers_def)

lemma availableNumbers_range:
  "n \<in> set (availableNumbers s col) \<Longrightarrow>
   fst (columnRanges ! col) \<le> n \<and> n \<le> snd (columnRanges ! col)"
  by (simp add: availableNumbers_def)

lemma availableNumbers_nonempty:
  assumes "col < 9" "length (columnNumbers s ! col) \<le> 3"
  shows "availableNumbers s col \<noteq> []"
proof
  assume "availableNumbers s col = []"
  then have "{fst (columnRanges ! col) .. snd (columnRanges ! col)} \<subseteq> set (columnNumbers s ! col)"
    by (auto simp: availableNumbers_def filter_empty_conv)
  then have "card {fst (columnRanges ! col) .. snd (columnRanges ! col)}
      \<le> card (set (columnNumbers s ! col))"
    by (intro card_mono) simp_all
  also have "\<dots> \<le> length (columnNumbers s ! col)"
    by (rule card_length)
  finally have "card {fst (columnRanges ! col) .. snd (columnRanges ! col)} \<le> 3"
    using assms(2) by simp
  moreover have "9 \<le> card {fst (columnRanges ! col) .. snd (columnRanges ! col)}"
    using assms(1) by (auto simp: column_lo column_hi)
  ultimately show False by simp
qed

lemma addBatch_effect:
  assumes "validRandom rnd" "columnCounts s ! col < 3" "totalNumbers s < 15"
  obtains added where
    "columnNumbers (addBatch rnd col s) = (columnNumbers s)[col := columnNumbers s ! col @ added]"
    "columnCounts (addBatch rnd col s)
       = (columnCounts s)[col := columnCounts s ! col + int (length added)]"
    "totalNumbers (addBatch rnd col s) = totalNumbers s + int (length added)"
    "columnsToUse (addBatch rnd col s) = insert col (columnsToUse s)"
    "distinct added" "set added \<subseteq> set (availableNumbers s col)"
    "int (length added) \<le> 3 - columnCounts s ! col"
    "int (length added) \<le> 15 - totalNumbers s"
proof -
  define n where "n = min (min (3 - columnCounts s ! col) (15 - totalNumbers s))
                          (\<lfloor>rnd (calls s) * 2\<rfloor> + 1)"
  define avail where "avail = availableNumbers s col"
  define shuffled where "shuffled = shuffleArray rnd (avail, Suc (calls s))"
  define b where "b = \<lfloor>rnd (calls s) * 2\<rfloor> + 1"
  have b: "b = 1 \<or> b = 2"
    unfolding b_def using assms(1) by (rule random_batch)
  have nb: "n = min (min (3 - columnCounts s ! col) (15 - totalNumbers s)) b"
    unfolding n_def b_def ..
  have n: "1 \<le> n" "n \<le> 3 - columnCounts s ! col" "n \<le> 15 - totalNumbers s"
    using b assms(2,3) unfolding nb by auto
  have unfold: "addBatch rnd col s =
     (if n \<le> int (length avail) then
        s\<lparr>columnCounts := (columnCounts s)[col := columnCounts s ! col + n],
          columnNumbers := (columnNumbers s)
            [col := columnNumbers s ! col @ sort (take (nat n) (fst shuffled))],
          totalNumbers := totalNumbers s + n,
          columnsToUse := insert col (columnsToUse s),
          calls := snd shuffled\<rparr>
      else
        s\<lparr>columnCounts := (columnCounts s)
            [col := columnCounts s ! col + n - (n - int (length avail))],
          columnNumbers := (columnNumbers s)[col := columnNumbers s ! col @ sort avail],
          totalNumbers := totalNumbers s + n - (n - int (length avail)),
          columnsToUse := insert col (columnsToUse s),
          calls := Suc (calls s)\<rparr>)"
    unfolding addBatch_def Let_def n_def avail_def shuffled_def ..
  have avail_d: "distinct avail"
    unfolding avail_def by (rule availableNumbers_distinct)
  show ?thesis
  proof (cases "n \<le> int (length avail)")
    case True
    let ?added = "sort (take (nat n) (fst shuffled))"
    have m: "mset (fst shuffled) = mset avail"
      unfolding shuffled_def using assms(1) by (rule mset_shuffleArray)
    then have "distinct (fst shuffled)"
      using avail_d by (metis mset_eq_imp_distinct_iff)
    then have d: "distinct ?added"
      by simp
    have "set (fst shuffled) = set avail"
      using m by (rule mset_eq_setD)
    then have sub: "set ?added \<subseteq> set (availableNumbers s col)"
      using set_take_subset [of "nat n" "fst shuffled"] by (simp add: avail_def)
    have "length (fst shuffled) = length avail"
      using m by (rule mset_eq_length)
    then have l: "int (length ?added) = n"
      using True n(1) by simp
    show ?thesis
    proof (rule that [of ?added])
      show "columnNumbers (addBatch rnd col s) = (columnNumbers s)[col := columnNumbers s ! col @ ?added]"
        using True by (simp add: unfold)
      show "columnCounts (addBatch rnd col s)
          = (columnCounts s)[col := columnCounts s ! col + int (length ?added)]"
        unfolding l using True by (simp add: unfold)
      show "totalNumbers (addBatch rnd col s) = totalNumbers s + int (length ?added)"
        unfolding l using True by (simp add: unfold)
      show "columnsToUse (addBatch rnd col s) = insert col (columnsToUse s)"
        using True by (simp add: unfold)
      show "distinct ?added" by (rule d)
      show "set ?added \<subseteq> set (availableNumbers s col)" by (rule sub)
      show "int (length ?added) \<le> 3 - columnCounts s ! col"
        unfolding l by (rule n(2))
      show "int (length ?added) \<le> 15 - totalNumbers s"
        unfolding l by (rule n(3))
    qed
  next
    case False
    let ?added = "sort avail"
    have l: "int (length ?added) < n"
      using False by simp
    show ?thesis
    proof (rule that [of ?added])
      show "columnNumbers (addBatch rnd col s) = (columnNumbers s)[col := columnNumbers s ! col @ ?added]"
        using False by (simp add: unfold)
      show "columnCounts (addBatch rnd col s)
          = (columnCounts s)[col := columnCounts s ! col + int (length ?added)]"
        using False by (simp add: unfold)
      show "totalNumbers (addBatch rnd col s) = totalNumbers s + int (length ?added)"
        using False by (simp add: unfold)
      show "columnsToUse (addBatch rnd col s) = insert col (columnsToUse s)"
        using False by (simp add: unfold)
      show "distinct ?added" using avail_d by simp
      show "set ?added \<subseteq> set (availableNumbers s col)" by (simp add: avail_def)
      show "int (length ?added) \<le> 3 - columnCounts s ! col"
        using l n(2) by linarith
      show "int (length ?added) \<le> 15 - totalNumbers s"
        using l n(3) by linarith
    qed
  qed
qed

lemma goodState_append:
  assumes good: "goodState s" and col: "col < 9"
    and added: "distinct added" "set added \<subseteq> set (availableNumbers s col)"
      "int (length added) \<le> 3 - columnCounts s ! col" "int (length added) \<le> 15 - totalNumbers s"
    and cn: "columnNumbers s' = (columnNumbers s)[col := columnNumbers s ! col @ added]"
    and cc: "columnCounts s' = (columnCounts s)[col := columnCounts s ! col + int (length added)]"
    and tot: "totalNumbers s' = totalNumbers s + int (length added)"
  shows "goodState s'"
proof -
  let ?old = "columnNumbers s ! col"
  from good col have old: "columnCounts s ! col = int (length ?old)" "distinct ?old"
    "inOwnRange col ?old"
    by (simp_all add: goodState_def)
  have d: "distinct (?old @ added)"
    using old(2) added(1,2) availableNumbers_fresh by (auto simp: subset_iff)
  have r: "inOwnRange col (?old @ added)"
    using old(3) added(2) availableNumbers_range by (auto simp: inOwnRange_def subset_iff)
  have l: "length (?old @ added) \<le> 3"
    using added(3) old(1) by simp
  show ?thesis
  proof (rule goodState_column [OF good col d r l])
    show "totalNumbers s + int (length (?old @ added)) - int (length ?old) \<le> 15"
      using added(4) by simp
    show "columnCounts s' = (columnCounts s)[col := int (length (?old @ added))]"
      using old(1) by (simp add: cc)
    show "columnNumbers s' = (columnNumbers s)[col := ?old @ added]"
      by (rule cn)
    show "totalNumbers s' = totalNumbers s + int (length (?old @ added)) - int (length ?old)"
      by (simp add: tot)
  qed
qed

lemma goodState_addBatch:
  assumes "validRandom rnd" "goodState s" "col < 9"
    and "columnCounts s ! col < 3" "totalNumbers s < 15"
  shows "goodState (addBatch rnd col s)"
proof -
  obtain added where a:
    "columnNumbers (addBatch rnd col s) = (columnNumbers s)[col := columnNumbers s ! col @ added]"
    "columnCounts (addBatch rnd col s)
       = (columnCounts s)[col := columnCounts s ! col + int (length added)]"
    "totalNumbers (addBatch rnd col s) = totalNumbers s + int (length added)"
    "columnsToUse (addBatch rnd col s) = insert col (columnsToUse s)"
    "distinct added" "set added \<subseteq> set (availableNumbers s col)"
    "int (length added) \<le> 3 - columnCounts s ! col"
    "int (length added) \<le> 15 - totalNumbers s"
    by (rule addBatch_effect [OF assms(1,4,5)])
  from assms(2,3) a(5-8) a(1-3) show ?thesis
    by (rule goodState_append)
qed

lemma goodState_initial: "goodState initialState"
  by (simp add: goodState_def initialState_def inOwnRange_def)

lemma addBatch_other_counts:
  assumes "validRandom rnd" "columnCounts s ! col < 3" "totalNumbers s < 15" "c \<noteq> col"
  shows "columnCounts (addBatch rnd col s) ! c = columnCounts s ! c"
proof -
  obtain added where
    "columnNumbers (addBatch rnd col s) = (columnNumbers s)[col := columnNumbers s ! col @ added]"
    "columnCounts (addBatch rnd col s)
       = (columnCounts s)[col := columnCounts s ! col + int (length added)]"
    "totalNumbers (addBatch rnd col s) = totalNumbers s + int (length added)"
    "columnsToUse (addBatch rnd col s) = insert col (columnsToUse s)"
    "distinct added" "set added \<subseteq> set (availableNumbers s col)"
    "int (length added) \<le> 3 - columnCounts s ! col"
    "int (length added) \<le> 15 - totalNumbers s"
    by (rule addBatch_effect [OF assms(1-3)])
  with assms(4) show ?thesis by simp
qed

lemma addBatch_used:
  assumes "validRandom rnd" "columnCounts s ! col < 3" "totalNumbers s < 15"
  shows "columnsToUse (addBatch rnd col s) = insert col (columnsToUse s)"
proof -
  obtain added where
    "columnNumbers (addBatch rnd col s) = (columnNumbers s)[col := columnNumbers s ! col @ added]"
    "columnCounts (addBatch rnd col s)
       = (columnCounts s)[col := columnCounts s ! col + int (length added)]"
    "totalNumbers (addBatch rnd col s) = totalNumbers s + int (length added)"
    "columnsToUse (addBatch rnd col s) = insert col (columnsToUse s)"
    "distinct added" "set added \<subseteq> set (availableNumbers s col)"
    "int (length added) \<le> 3 - columnCounts s ! col"
    "int (length added) \<le> 15 - totalNumbers s"
    by (rule addBatch_effect [OF assms(1-3)])
  then show ?thesis by simp
qed

lemma sweepColumns_good:
  "validRandom rnd \<Longrightarrow> goodState s \<Longrightarrow> goodState (sweepColumns rnd col s)"
proof (induction rnd col s rule: sweepColumns.induct)
  case (1 rnd col s)
  show ?case
  proof (cases "col < 9 \<and> totalNumbers s < 15")
    case True
    let ?s1 = "if columnCounts s ! col < 3 then addBatch rnd col s else s"
    have "goodState ?s1"
      using "1.prems" True by (simp add: goodState_addBatch)
    with "1.IH" [OF True "1.prems"(1)] have "goodState (sweepColumns rnd (Suc col) ?s1)" .
    with True show ?thesis
      by (subst sweepColumns.simps) simp
  next
    case False
    then have "sweepColumns rnd col s = s"
      by (subst sweepColumns.simps) auto
    with "1.prems" show ?thesis
      by simp
  qed
qed

lemma sweepColumns_done:
  "validRandom rnd \<Longrightarrow> goodState s \<Longrightarrow> col \<le> 9 \<Longrightarrow>
   (\<forall>c. col \<le> c \<and> c < 9 \<longrightarrow> columnCounts s ! c < 3) \<Longrightarrow>
   {0..<col} \<subseteq> columnsToUse s \<Longrightarrow> columnsToUse s \<subseteq> {0..<9} \<Longrightarrow>
   15 \<le> totalNumbers (sweepColumns rnd col s) \<or> columnsToUse (sweepColumns rnd col s) = {0..<9}"
proof (induction rnd col s rule: sweepColumns.induct)
  case (1 rnd col s)
  show ?case
  proof (cases "col < 9 \<and> totalNumbers s < 15")
    case True
    then have room: "columnCounts s ! col < 3"
      using "1.prems"(4) by simp
    let ?s1 = "if columnCounts s ! col < 3 then addBatch rnd col s else s"
    have s1: "?s1 = addBatch rnd col s"
      using room by simp
    have good: "goodState ?s1"
      using "1.prems" True by (simp add: goodState_addBatch)
    have others: "\<forall>c. Suc col \<le> c \<and> c < 9 \<longrightarrow> columnCounts ?s1 ! c < 3"
    proof (intro allI impI)
      fix c assume c: "Suc col \<le> c \<and> c < 9"
      then have "c \<noteq> col" by simp
      then have "columnCounts (addBatch rnd col s) ! c = columnCounts s ! c"
        using "1.prems"(1) room True by (simp add: addBatch_other_counts)
      with c "1.prems"(4) show "columnCounts ?s1 ! c < 3"
        unfolding s1 by simp
    qed
    have used: "columnsToUse ?s1 = insert col (columnsToUse s)"
      unfolding s1 using "1.prems"(1) room True by (simp add: addBatch_used)
    have lower: "{0..<Suc col} \<subseteq> columnsToUse ?s1"
      unfolding used using "1.prems"(5) by (auto simp: less_Suc_eq)
    have upper: "columnsToUse ?s1 \<subseteq> {0..<9}"
      unfolding used using "1.prems"(6) True by simp
    have "Suc col \<le> 9" using True by simp
    from "1.IH" [OF True "1.prems"(1) good this others lower upper]
    have "15 \<le> totalNumbers (sweepColumns rnd (Suc col) ?s1)
        \<or> columnsToUse (sweepColumns rnd (Suc col) ?s1) = {0..<9}" .
    with True show ?thesis
      by (subst (1 2) sweepColumns.simps) simp
  next
    case False
    have same: "sweepColumns rnd col s = s"
      using False by (subst sweepColumns.simps) auto
    show ?thesis
    proof (cases "totalNumbers s < 15")
      case True
      with False "1.prems"(3) have "col = 9" by simp
      with "1.prems"(5,6) have "columnsToUse s = {0..<9}" by auto
      then show ?thesis by (simp add: same)
    next
      case False
      then show ?thesis by (simp add: same)
    qed
  qed
qed

lemma distributeLoop_stops:
  "\<not> totalNumbers s < 15 \<Longrightarrow> distributeLoop rnd s = Some s"
  by (subst distributeLoop.simps) simp

lemma distributeLoop_initial:
  assumes "validRandom rnd"
  shows "\<exists>s. distributeLoop rnd initialState = Some s \<and> goodState s"
proof -
  let ?s = "sweepColumns rnd 0 initialState"
  have good: "goodState ?s"
    using assms goodState_initial by (rule sweepColumns_good)
  have "15 \<le> totalNumbers ?s \<or> columnsToUse ?s = {0..<9}"
    using assms goodState_initial
    by (rule sweepColumns_done) (simp_all add: initialState_def)
  then have "card (columnsToUse ?s) = 9 \<or> \<not> totalNumbers ?s < 15"
    by auto
  then have "(if card (columnsToUse ?s) = 9 then Some ?s else distributeLoop rnd ?s) = Some ?s"
    by (auto simp: distributeLoop_stops)
  then have "distributeLoop rnd initialState = Some ?s"
    by (subst distributeLoop.simps) (simp add: initialState_def)
  with good show ?thesis by blast
qed

lemma concat_at_least:
  "\<forall>xs\<in>set xss. 3 \<le> length xs \<Longrightarrow> 3 * length xss \<le> length (concat xss)"
  by (induction xss) auto

lemma goodState_room:
  assumes "goodState s" "totalNumbers s < 15"
  shows "\<exists>c<9. columnCounts s ! c < 3"
proof (rule ccontr)
  assume "\<not> (\<exists>c<9. columnCounts s ! c < 3)"
  then have full: "\<And>c. c < 9 \<Longrightarrow> 3 \<le> columnCounts s ! c"
    by (meson not_less)
  from assms(1) have len: "length (columnNumbers s) = 9"
    and cc: "\<And>c. c < 9 \<Longrightarrow> columnCounts s ! c = int (length (columnNumbers s ! c))"
    and total: "totalNumbers s = int (length (concat (columnNumbers s)))"
    by (simp_all add: goodState_def)
  have "\<forall>xs\<in>set (columnNumbers s). 3 \<le> length xs"
  proof
    fix xs assume "xs \<in> set (columnNumbers s)"
    then obtain c where c: "c < 9" "xs = columnNumbers s ! c"
      using len by (metis in_set_conv_nth)
    with full [OF c(1)] cc [OF c(1)] show "3 \<le> length xs" by simp
  qed
  then have "3 * length (columnNumbers s) \<le> length (concat (columnNumbers s))"
    by (rule concat_at_least)
  with len total assms(2) show False by simp
qed

lemma goodState_addOne:
  assumes rnd: "validRandom rnd" and good: "goodState s" and col: "col < 9"
    and room: "columnCounts s ! col < 3" "totalNumbers s < 15"
    and avail: "0 < length (availableNumbers s col)"
  shows "goodState (addOne rnd col s)"
    and "totalNumbers (addOne rnd col s) = totalNumbers s + 1"
proof -
  let ?avail = "availableNumbers s col"
  let ?x = "?avail ! nat \<lfloor>rnd (calls s) * of_nat (length ?avail)\<rfloor>"
  let ?old = "columnNumbers s ! col"
  let ?new = "sort (?old @ [?x])"
  have "nat \<lfloor>rnd (calls s) * of_nat (length ?avail)\<rfloor> < length ?avail"
    using rnd avail by (rule random_index)
  then have x: "?x \<in> set ?avail"
    by (rule nth_mem)
  from good col have old: "columnCounts s ! col = int (length ?old)" "distinct ?old"
    "inOwnRange col ?old"
    by (simp_all add: goodState_def)
  have d: "distinct ?new"
    using old(2) availableNumbers_fresh [OF x] by simp
  have r: "inOwnRange col ?new"
    using old(3) availableNumbers_range [OF x] by (simp add: inOwnRange_def)
  have l: "length ?new \<le> 3"
    using room(1) old(1) by simp
  show "totalNumbers (addOne rnd col s) = totalNumbers s + 1"
    by (simp add: addOne_def Let_def)
  show "goodState (addOne rnd col s)"
  proof (rule goodState_column [OF good col d r l])
    show "totalNumbers s + int (length ?new) - int (length ?old) \<le> 15"
      using room(2) by simp
    show "columnCounts (addOne rnd col s) = (columnCounts s)[col := int (length ?new)]"
      using old(1) by (simp add: addOne_def Let_def add.commute)
    show "columnNumbers (addOne rnd col s) = (columnNumbers s)[col := ?new]"
      by (simp add: addOne_def Let_def)
    show "totalNumbers (addOne rnd col s) = totalNumbers s + int (length ?new) - int (length ?old)"
      by (simp add: addOne_def Let_def)
  qed
qed

lemma fillScan_adds:
  "validRandom rnd \<Longrightarrow> goodState s \<Longrightarrow> totalNumbers s < 15 \<Longrightarrow>
   (\<exists>c. col \<le> c \<and> c < 9 \<and> columnCounts s ! c < 3) \<Longrightarrow>
   goodState (fillScan rnd col s) \<and> totalNumbers (fillScan rnd col s) = totalNumbers s + 1"
proof (induction rnd col s rule: fillScan.induct)
  case (1 rnd col s)
  from "1.prems"(4) obtain c where c: "col \<le> c" "c < 9" "columnCounts s ! c < 3"
    by blast
  then have col: "col < 9" by simp
  let ?take = "columnCounts s ! col < 3 \<and> totalNumbers s < 15
      \<and> 0 < length (availableNumbers s col)"
  show ?case
  proof (cases ?take)
    case True
    then have "fillScan rnd col s = addOne rnd col s"
      using col by (subst fillScan.simps) simp
    with goodState_addOne [OF "1.prems"(1,2) col] True show ?thesis
      by simp
  next
    case False
    have "\<not> columnCounts s ! col < 3"
    proof
      assume room: "columnCounts s ! col < 3"
      from "1.prems"(2) col have "length (columnNumbers s ! col) \<le> 3"
        by (simp add: goodState_def)
      with col have "availableNumbers s col \<noteq> []"
        by (rule availableNumbers_nonempty)
      with room "1.prems"(3) False show False by simp
    qed
    with c have "c \<noteq> col" by auto
    with c(1) have "Suc col \<le> c" by simp
    with c have next_room: "\<exists>c. Suc col \<le> c \<and> c < 9 \<and> columnCounts s ! c < 3"
      by blast
    have "fillScan rnd col s = fillScan rnd (Suc col) s"
      using col False by (subst fillScan.simps) auto
    with "1.IH" [OF col False "1.prems"(1,2,3) next_room] show ?thesis
      by simp
  qed
qed

lemma fillLoop_terminates:
  assumes "validRandom rnd"
  shows "goodState s \<Longrightarrow> \<exists>s'. fillLoop rnd s = Some s' \<and> goodState s' \<and> totalNumbers s' = 15"
proof (induction "nat (15 - totalNumbers s)" arbitrary: s)
  case 0
  then have "totalNumbers s = 15"
    by (simp add: goodState_def)
  then have "fillLoop rnd s = Some s"
    by (subst fillLoop.simps) simp
  with 0 \<open>totalNumbers s = 15\<close> show ?case by simp
next
  case (Suc n)
  then have less: "totalNumbers s < 15" by simp
  let ?s1 = "fillScan rnd 0 s"
  from goodState_room [OF Suc.prems less]
  have "\<exists>c. 0 \<le> c \<and> c < 9 \<and> columnCounts s ! c < 3" by simp
  with fillScan_adds [OF assms Suc.prems less, of 0]
  have s1: "goodState ?s1" "totalNumbers ?s1 = totalNumbers s + 1"
    by simp_all
  have "n = nat (15 - totalNumbers ?s1)"
    using Suc.hyps(2) s1(2) by simp
  from Suc.hyps(1) [OF this s1(1)]
  obtain s' where "fillLoop rnd ?s1 = Some s'" "goodState s'" "totalNumbers s' = 15"
    by blast
  moreover have "fillLoop rnd s = fillLoop rnd ?s1"
    using less by (subst fillLoop.simps) simp
  ultimately show ?case by simp
qed

lemma trimLoop_stops: "goodState s \<Longrightarrow> trimLoop s = Some s"
  by (subst trimLoop.simps) (simp add: goodState_def)

lemma distinct_concat_keyed:
  assumes "\<And>i x. i < length xss \<Longrightarrow> x \<in> set (xss ! i) \<Longrightarrow> key x = Some i"
    and "\<And>i. i < length xss \<Longrightarrow> distinct (xss ! i)"
  shows "distinct (concat xss)"
  using assms
proof (induction xss rule: rev_induct)
  case Nil
  show ?case by simp
next
  case (snoc ys xss)
  have init: "distinct (concat xss)"
  proof (rule snoc.IH)
    fix i x assume "i < length xss" "x \<in> set (xss ! i)"
    then show "key x = Some i"
      using snoc.prems(1) [of i x] by (simp add: nth_append)
  next
    fix i assume "i < length xss"
    then show "distinct (xss ! i)"
      using snoc.prems(2) [of i] by (simp add: nth_append)
  qed
  have last: "distinct ys"
    using snoc.prems(2) [of "length xss"] by simp
  have "set (concat xss) \<inter> set ys = {}"
  proof (rule ccontr)
    assume "set (concat xss) \<inter> set ys \<noteq> {}"
    then obtain x where x: "x \<in> set (concat xss)" "x \<in> set ys" by blast
    from x(1) obtain zs where "zs \<in> set xss" "x \<in> set zs" by auto
    then obtain i where i: "i < length xss" "x \<in> set (xss ! i)"
      by (metis in_set_conv_nth)
    then have "key x = Some i"
      using snoc.prems(1) [of i x] by (simp add: nth_append)
    moreover have "key x = Some (length xss)"
      using snoc.prems(1) [of "length xss" x] x(2) by simp
    ultimately show False using i(1) by simp
  qed
  with init last show ?case by simp
qed

lemma goodState_columns:
  assumes "goodState s"
  shows "length (columnNumbers s) = 9"
    and "list_all (\<lambda>c. length c \<le> 3) (columnNumbers s)"
    and "0 \<notin> set (concat (columnNumbers s))"
    and "distinct (concat (columnNumbers s))"
    and "\<And>c n. c < 9 \<Longrightarrow> n \<in> set (columnNumbers s ! c) \<Longrightarrow>
           fst (columnRanges ! c) \<le> n \<and> n \<le> snd (columnRanges ! c)"
proof -
  from assms show len: "length (columnNumbers s) = 9"
    by (simp add: goodState_def)
  from assms have each: "\<And>c. c < 9 \<Longrightarrow> length (columnNumbers s ! c) \<le> 3 \<and>
      distinct (columnNumbers s ! c) \<and> inOwnRange c (columnNumbers s ! c)"
    by (simp add: goodState_def)
  show range: "\<And>c n. c < 9 \<Longrightarrow> n \<in> set (columnNumbers s ! c) \<Longrightarrow>
           fst (columnRanges ! c) \<le> n \<and> n \<le> snd (columnRanges ! c)"
    using each by (simp add: inOwnRange_def)
  show "list_all (\<lambda>c. length c \<le> 3) (columnNumbers s)"
    using each len by (simp add: list_all_length)
  show "0 \<notin> set (concat (columnNumbers s))"
  proof
    assume "0 \<in> set (concat (columnNumbers s))"
    then obtain xs where "xs \<in> set (columnNumbers s)" "0 \<in> set xs" by auto
    then obtain c where c: "c < 9" "0 \<in> set (columnNumbers s ! c)"
      using len by (metis in_set_conv_nth)
    from range [OF c] have "fst (columnRanges ! c) \<le> 0" by simp
    with c(1) show False
      by (simp add: column_lo split: if_splits)
  qed
  show "distinct (concat (columnNumbers s))"
  proof (rule distinct_concat_keyed [where key = "\<lambda>n. columnOf (of_int n)"])
    fix i n assume i: "i < length (columnNumbers s)" and n: "n \<in> set (columnNumbers s ! i)"
    from i len have i9: "i < 9" by simp
    from range [OF i9 n] have "inColumn (of_int n) i"
      by (simp add: inColumn_def)
    with i9 show "columnOf (rat_of_int n) = Some i"
      by (simp add: columnOf_Some)
  next
    fix i assume "i < length (columnNumbers s)"
    with len each [of i] show "distinct (columnNumbers s ! i)" by simp
  qed
qed

lemma numbersInCol_le: "numbersInCol g col \<le> length g"
  by (simp add: numbersInCol_def)

lemma finishTicket_returns:
  assumes good: "goodState s" and total: "totalNumbers s = 15"
  shows "\<exists>t. finishTicket s = Inr t"
proof -
  let ?cols = "columnNumbers s"
  note c = goodState_columns [OF good]
  have fifteen: "length (concat ?cols) = 15"
    using good total by (simp add: goodState_def)
  from placeNumbers_fills [OF c(1) c(2) fifteen c(3)]
  obtain g where g: "placeNumbers ?cols = (g, [5, 5, 5])" "gridShape g"
    "\<forall>r<3. numbersInRow g r = 5"
    "mset (nonEmpty (concat g)) = mset (concat ?cols)"
    "\<forall>r<3. \<forall>c<9. g ! r ! c = 0 \<or> g ! r ! c \<in> set (?cols ! c)"
    by blast
  have rows: "find (\<lambda>row. numbersInRow g row \<noteq> 5) [0..<3] = None"
    using g(3) by (simp add: find_None_iff)
  have "length g = 3"
    using g(2) by (simp add: gridShape_def)
  then have "\<And>col. \<not> 3 < numbersInCol g col"
    using numbersInCol_le [of g] by (simp add: not_less)
  then have cols: "find (\<lambda>col. 3 < numbersInCol g col) [0..<9] = None"
    by (simp add: find_None_iff)
  have "size (mset (nonEmpty (concat g))) = size (mset (concat ?cols))"
    using g(4) by simp
  then have count: "length (nonEmpty (concat g)) = 15"
    using fifteen by simp
  have "\<And>col row. col < 9 \<Longrightarrow> row < 3 \<Longrightarrow> \<not> outsideRange g (col, row)"
  proof -
    fix col row :: nat assume cr: "col < 9" "row < 3"
    with g(5) have "g ! row ! col = 0 \<or> g ! row ! col \<in> set (?cols ! col)"
      by blast
    then show "\<not> outsideRange g (col, row)"
    proof
      assume "g ! row ! col = 0"
      then show ?thesis by (simp add: outsideRange_def Let_def)
    next
      assume "g ! row ! col \<in> set (?cols ! col)"
      from c(5) [OF cr(1) this] show ?thesis
        by (simp add: outsideRange_def Let_def not_less)
    qed
  qed
  then have range: "find (outsideRange g)
      (concat (map (\<lambda>col. map (\<lambda>row. (col, row)) [0..<3]) [0..<9])) = None"
    unfolding find_None_iff upt_pairs by auto
  have "distinct (nonEmpty (concat g))"
    using g(4) c(4) by (metis mset_eq_imp_distinct_iff)
  then have dup: "card (set (nonEmpty (concat g))) = 15"
    using count by (simp add: distinct_card)
  have "validateTicket g = None"
    unfolding validateTicket_def rows cols range by (simp add: count dup)
  then show ?thesis
    by (simp add: finishTicket_def g(1))
qed

lemma generator_always_returns:
  assumes "validRandom rnd"
  shows "\<exists>t. generateHousieTicket rnd = Some (Inr t)"
proof -
  from distributeLoop_initial [OF assms]
  obtain s1 where s1: "distributeLoop rnd initialState = Some s1" "goodState s1"
    by blast
  from fillLoop_terminates [OF assms s1(2)]
  obtain s2 where s2: "fillLoop rnd s1 = Some s2" "goodState s2" "totalNumbers s2 = 15"
    by blast
  have s3: "trimLoop s2 = Some s2"
    using s2(2) by (rule trimLoop_stops)
  from finishTicket_returns [OF s2(2,3)] obtain t where "finishTicket s2 = Inr t"
    by blast
  with s1(1) s2(1) s3 show ?thesis
    by (simp add: generateHousieTicket_def)
qed

lemma convertFlatToGrid_returns:
  assumes "validRandom rnd" "length numbers = 15"
  shows "\<exists>g. convertFlatToGrid rnd numbers = Some (Inr g)"
  using generator_always_returns [OF assms(1)] assms(2)
  by (auto simp: convertFlatToGrid_def)

subsection \<open>One run of the generator\<close>

lemma generate_half: "generateHousieTicket (\<lambda>k. 1 / 2) = Some (Inr halfTicket)"
  by code_simp

lemma overflowingList_overflows: "\<not> atMostThreeInRanges overflowingList"
  by code_simp

lemma halfTicket_second_column: "columnNumbersOf (grid halfTicket) 1 = [19, 10]"
  by (simp add: halfTicket_def columnNumbersOf_def nonEmpty_def)

lemma halfTicket_not_ascending: "\<not> columnsAscending (grid halfTicket)"
proof
  assume "columnsAscending (grid halfTicket)"
  then have "sorted_wrt (<) (columnNumbersOf (grid halfTicket) 1)"
    by (simp add: columnsAscending_def list_all_iff)
  then show False
    unfolding halfTicket_second_column by simp
qed

theorem generated_ticket_invariants_witness:
  "generateHousieTicket (\<lambda>k. 1 / 2) = Some (Inr halfTicket) \<and>
   gridShape (grid halfTicket) \<and> fifteenNumbers (grid halfTicket) \<and>
   fivePerRow (grid halfTicket) \<and> atMostThreePerColumn (grid halfTicket) \<and>
   withinColumnRanges (grid halfTicket) \<and> pairwiseDistinct (grid halfTicket)"
  using generated_ticket_invariants [OF generate_half] generate_half
  by simp

theorem generated_flat_list_validates_witness:
  "generateHousieTicket (\<lambda>k. 1 / 2) = Some (Inr halfTicket) \<and>
   validateExistingTicket plainHost (flatCandidate (flatNumbers halfTicket))
     = \<lparr>isValid = True, issues = []\<rparr>"
  using generated_flat_list_validates [OF generate_half, of plainHost] generate_half
  by simp

text \<open>
  Claim C4 does not hold of the code. With every call of \<^verbatim>\<open>Math.random()\<close> returning one
  half, the generator returns a grid whose second column holds 19 in the top row and 10 in
  the bottom row: the column's numbers were sorted, and then dealt to the rows with the
  fewest numbers, bottom row first.
\<close>

theorem generated_column_not_ascending:
  "generateHousieTicket (\<lambda>k. 1 / 2) = Some (Inr halfTicket) \<and>
   columnNumbersOf (grid halfTicket) 1 = [19, 10] \<and>
   \<not> columnsAscending (grid halfTicket)"
  using generate_half halfTicket_second_column halfTicket_not_ascending
  by simp

text \<open>
  Claim C6 does not hold of the code, by the same defect. For a list of fifteen numbers with
  four of them in 1-9, \<^verbatim>\<open>convertFlatToGrid\<close> returns the generator's grid, and with every
  call of \<^verbatim>\<open>Math.random()\<close> returning one half that grid breaks invariant 6. (The other
  parts of the claim hold: by \<open>convertFlatToGrid_returns\<close> a grid is returned for every list
  of fifteen entries, and it is the generator's, which satisfies invariants 1-5.)
\<close>

theorem convertFlatToGrid_column_not_ascending:
  "length overflowingList = 15 \<and> \<not> atMostThreeInRanges overflowingList \<and>
   convertFlatToGrid (\<lambda>k. 1 / 2) overflowingList = Some (Inr (grid halfTicket)) \<and>
   \<not> columnsAscending (grid halfTicket)"
  using generate_half halfTicket_not_ascending overflowingList_overflows
  by (simp add: convertFlatToGrid_def overflowingList_def)

subsection \<open>The grid laid out from a stored list\<close>

lemma upt_1_3: "[Suc 0..<3] = [1, 2]"
  by (simp add: upt_rec)

lemma layoutBestRow_roundRobin:
  assumes "k < 15"
  shows "layoutBestRow (roundRobin k) = k mod 3 \<and> roundRobin k ! (k mod 3) < 5"
proof (cases k rule: roundRobin_cases)
  case (1 a)
  with assms show ?thesis
    by (simp add: layoutBestRow_def upt_1_3)
next
  case (2 a)
  with assms show ?thesis
    by (simp add: layoutBestRow_def upt_1_3)
next
  case (3 a)
  with assms show ?thesis
    by (simp add: layoutBestRow_def upt_1_3)
qed

lemma layoutNumber_roundRobin:
  assumes "k < 15"
  shows "layoutNumber (g, roundRobin k) (n, col)
           = (g[k mod 3 := (g ! (k mod 3))[col := n]], roundRobin (Suc k))"
  using layoutBestRow_roundRobin [OF assms]
  by (simp add: layoutNumber_def roundRobin_Suc Let_def)

lemma groupStep_other:
  "columnOf num \<noteq> Some col \<Longrightarrow> groupStep m num col = m col"
  by (simp add: groupStep_def split: option.splits)

lemma groupStep_same:
  "columnOf num = Some col \<Longrightarrow>
   groupStep m num col = Some ((case m col of None \<Rightarrow> [] | Some ns \<Rightarrow> ns) @ [num])"
  by (simp add: groupStep_def)

lemma foldl_groupStep:
  "(case foldl groupStep m nums col of None \<Rightarrow> [] | Some ns \<Rightarrow> ns)
     = (case m col of None \<Rightarrow> [] | Some ns \<Rightarrow> ns) @ filter (\<lambda>num. columnOf num = Some col) nums"
proof (induction nums arbitrary: m)
  case Nil
  then show ?case by simp
next
  case (Cons num nums)
  show ?case
  proof (cases "columnOf num = Some col")
    case True
    then show ?thesis
      by (simp add: Cons.IH groupStep_same)
  next
    case False
    then show ?thesis
      by (simp add: Cons.IH groupStep_other)
  qed
qed

lemma numbersbyColumn_group:
  "(case numbersbyColumn nums col of None \<Rightarrow> [] | Some ns \<Rightarrow> ns)
     = sort (filter (\<lambda>num. columnOf num = Some col) nums)"
proof -
  have "(case numbersbyColumn nums col of None \<Rightarrow> [] | Some ns \<Rightarrow> ns)
          = sort (case foldl groupStep Map.empty nums col of None \<Rightarrow> [] | Some ns \<Rightarrow> ns)"
    by (simp add: numbersbyColumn_def split: option.splits)
  then show ?thesis
    by (simp add: foldl_groupStep)
qed

lemma groupedColumns_blocks:
  "groupedColumns (numbersbyColumn nums) = concat (map (columnBlock (columnsOf nums)) [0..<9])"
proof -
  have "\<And>col. col < 9 \<Longrightarrow>
      (case numbersbyColumn nums col of None \<Rightarrow> [] | Some ns \<Rightarrow> map (\<lambda>num. (num, col)) ns)
        = columnBlock (columnsOf nums) col"
  proof -
    fix col :: nat assume col: "col < 9"
    have "(case numbersbyColumn nums col of None \<Rightarrow> [] | Some ns \<Rightarrow> map (\<lambda>num. (num, col)) ns)
            = map (\<lambda>num. (num, col)) (case numbersbyColumn nums col of None \<Rightarrow> [] | Some ns \<Rightarrow> ns)"
      by (simp split: option.splits)
    also have "\<dots> = map (\<lambda>num. (num, col)) (sort (filter (\<lambda>num. columnOf num = Some col) nums))"
      by (simp only: numbersbyColumn_group)
    also have "\<dots> = columnBlock (columnsOf nums) col"
      using col by (simp add: columnBlock_def columnsOf_def)
    finally show "(case numbersbyColumn nums col of None \<Rightarrow> []
        | Some ns \<Rightarrow> map (\<lambda>num. (num, col)) ns) = columnBlock (columnsOf nums) col" .
  qed
  then show ?thesis
    unfolding groupedColumns_def by (intro arg_cong [where f = concat] map_cong) auto
qed

lemma mset_concat_map: "mset (concat (map f cs)) = (\<Sum>c\<leftarrow>cs. mset (f c))"
  by (induction cs) simp_all

lemma sum_list_single:
  "distinct cs \<Longrightarrow>
   (\<Sum>c\<leftarrow>cs. if a = Some c then {#x#} else {#}) = (if a \<in> Some ` set cs then {#x#} else {#})"
  by (induction cs) auto

lemma columns_partition:
  "(\<Sum>col\<leftarrow>[0..<9]. filter_mset (\<lambda>num. columnOf num = Some col) M)
     = filter_mset (\<lambda>num. columnOf num \<noteq> None) M"
proof (induction M)
  case empty
  show ?case by (simp add: sum_list_0)
next
  case (add x M)
  have split: "\<And>col. filter_mset (\<lambda>num. columnOf num = Some col) (add_mset x M)
      = (if columnOf x = Some col then {#x#} else {#}) + filter_mset (\<lambda>num. columnOf num = Some col) M"
    by simp
  have "columnOf x \<in> Some ` set [0..<9] \<longleftrightarrow> columnOf x \<noteq> None"
  proof (cases "columnOf x")
    case None
    then show ?thesis by auto
  next
    case (Some c)
    then have "c < 9" by (simp add: columnOf_Some)
    then have "c \<in> set [0..<9]" by simp
    with Some show ?thesis by auto
  qed
  then have one: "(\<Sum>col\<leftarrow>[0..<9]. if columnOf x = Some col then {#x#} else {#})
      = (if columnOf x \<noteq> None then {#x#} else {#})"
    using sum_list_single [OF distinct_upt, of "columnOf x" x 0 9] by simp
  have "(\<Sum>col\<leftarrow>[0..<9]. filter_mset (\<lambda>num. columnOf num = Some col) (add_mset x M))
      = (\<Sum>col\<leftarrow>[0..<9]. if columnOf x = Some col then {#x#} else {#})
        + (\<Sum>col\<leftarrow>[0..<9]. filter_mset (\<lambda>num. columnOf num = Some col) M)"
    unfolding split by (rule sum_list_addf)
  also have "\<dots> = (if columnOf x \<noteq> None then {#x#} else {#})
        + filter_mset (\<lambda>num. columnOf num \<noteq> None) M"
    unfolding one add.IH ..
  also have "\<dots> = filter_mset (\<lambda>num. columnOf num \<noteq> None) (add_mset x M)"
    by simp
  finally show ?case .
qed

lemma mset_columnsOf:
  "mset (concat (columnsOf nums)) = filter_mset (\<lambda>num. columnOf num \<noteq> None) (mset nums)"
proof -
  have "mset (concat (columnsOf nums))
      = (\<Sum>col\<leftarrow>[0..<9]. mset (sort (filter (\<lambda>num. columnOf num = Some col) nums)))"
    unfolding columnsOf_def by (rule mset_concat_map)
  also have "\<dots> = (\<Sum>col\<leftarrow>[0..<9]. filter_mset (\<lambda>num. columnOf num = Some col) (mset nums))"
    by simp
  finally show ?thesis
    by (simp only: columns_partition)
qed

lemma length_columnsOf: "length (columnsOf nums) = 9"
  by (simp add: columnsOf_def)

lemma nth_columnsOf:
  "col < 9 \<Longrightarrow> columnsOf nums ! col = sort (filter (\<lambda>num. inColumn num col) nums)"
  by (simp add: columnsOf_def columnOf_Some)

text \<open>The overflow flag is raised exactly when a final count exceeds 3.\<close>

lemma overflowStep_counts:
  "fst (foldl overflowStep st nums) = foldl countInColumn (fst st) nums"
proof (induction nums arbitrary: st)
  case Nil
  show ?case by simp
next
  case (Cons num nums)
  have "fst (overflowStep st num) = countInColumn (fst st) num"
    by (simp add: overflowStep_def countInColumn_def split: option.splits)
  then show ?case
    by (simp add: Cons.IH)
qed

lemma overflowStep_flag:
  assumes "length (fst st) = 9" "snd st \<longleftrightarrow> (\<exists>col<9. 3 < fst st ! col)"
  shows "snd (foldl overflowStep st nums)
           \<longleftrightarrow> (\<exists>col<9. 3 < foldl countInColumn (fst st) nums ! col)"
  using assms
proof (induction nums arbitrary: st)
  case Nil
  then show ?case by simp
next
  case (Cons num nums)
  let ?st = "overflowStep st num"
  have len: "length (fst ?st) = 9"
    using Cons.prems(1) by (simp add: overflowStep_def split: option.splits)
  have flag: "snd ?st \<longleftrightarrow> (\<exists>col<9. 3 < fst ?st ! col)"
  proof (cases "columnOf num")
    case None
    with Cons.prems(2) show ?thesis
      by (simp add: overflowStep_def)
  next
    case (Some c)
    then have c: "c < 9" by (simp add: columnOf_Some)
    let ?old = "fst st" and ?new = "(fst st)[c := fst st ! c + 1]"
    have same: "?new ! c = ?old ! c + 1"
      using c Cons.prems(1) by simp
    have other: "\<And>col. col \<noteq> c \<Longrightarrow> ?new ! col = ?old ! col"
      by simp
    have "(\<exists>col<9. 3 < ?new ! col) \<longleftrightarrow> (\<exists>col<9. 3 < ?old ! col) \<or> 3 < ?old ! c + 1"
    proof
      assume "\<exists>col<9. 3 < ?new ! col"
      then obtain col where col: "col < 9" "3 < ?new ! col" by blast
      show "(\<exists>col<9. 3 < ?old ! col) \<or> 3 < ?old ! c + 1"
      proof (cases "col = c")
        case True
        with col(2) same show ?thesis by simp
      next
        case False
        with col other [of col] show ?thesis by auto
      qed
    next
      assume "(\<exists>col<9. 3 < ?old ! col) \<or> 3 < ?old ! c + 1"
      then show "\<exists>col<9. 3 < ?new ! col"
      proof
        assume "\<exists>col<9. 3 < ?old ! col"
        then obtain col where col: "col < 9" "3 < ?old ! col" by blast
        show ?thesis
        proof (cases "col = c")
          case True
          with col same have "3 < ?new ! c" by simp
          with c show ?thesis by blast
        next
          case False
          with col other [of col] have "3 < ?new ! col" by simp
          with col(1) show ?thesis by blast
        qed
      next
        assume "3 < ?old ! c + 1"
        with same have "3 < ?new ! c" by simp
        with c show ?thesis by blast
      qed
    qed
    with Some Cons.prems(2) show ?thesis
      by (simp add: overflowStep_def)
  qed
  have "fst ?st = countInColumn (fst st) num"
    by (simp add: overflowStep_def countInColumn_def split: option.splits)
  with Cons.IH [OF len flag] show ?case
    by simp
qed

lemma hasColumnOverflow_iff:
  "hasColumnOverflow nums \<longleftrightarrow> (\<exists>col<9. 3 < length (filter (\<lambda>num. inColumn num col) nums))"
proof -
  have "hasColumnOverflow nums \<longleftrightarrow> (\<exists>col<9. 3 < countColumns nums ! col)"
    unfolding hasColumnOverflow_def countColumns_def
    using overflowStep_flag [of "(replicate 9 0, False)" nums] by simp
  then show ?thesis
    by (auto simp: nth_countColumns)
qed

lemma layoutGrid_fills:
  assumes fifteen: "length nums = 15" and columns: "atMostThreeInRanges nums"
    and ranged: "allInRanges nums" and positive: "\<forall>num\<in>set nums. 0 < num"
  shows "gridShape (layoutGrid nums)" "fivePerRow (layoutGrid nums)"
    "mset (nonEmpty (concat (layoutGrid nums))) = mset nums"
    "layoutGrid nums
       = fst (foldl placeNumber (emptyGrid, [0, 0, 0]) (groupedColumns (numbersbyColumn nums)))"
proof -
  let ?cols = "columnsOf nums"
  have all: "filter_mset (\<lambda>num. columnOf num \<noteq> None) (mset nums) = mset nums"
  proof -
    have "\<And>num. num \<in> set nums \<Longrightarrow> columnOf num \<noteq> None"
    proof -
      fix num assume "num \<in> set nums"
      with ranged have "list_ex (inColumn num) [0..<9]"
        by (simp add: allInRanges_def list_all_iff)
      then obtain col where "col \<in> set [0..<9]" "inColumn num col"
        unfolding list_ex_iff by blast
      then have "col < 9 \<and> inColumn num col" by simp
      then show "columnOf num \<noteq> None"
        unfolding columnOf_None by blast
    qed
    then show ?thesis
      by (simp add: filter_mset_eq_conv)
  qed
  have flat: "concat (map (\<lambda>c. ?cols ! c) [0..<9]) = concat ?cols"
    using map_nth [of ?cols] by (simp add: length_columnsOf)
  have mset_cols: "mset (concat ?cols) = mset nums"
    by (simp only: mset_columnsOf all)
  then have "size (mset (concat ?cols)) = size (mset nums)"
    by simp
  then have total: "length (concat ?cols) = 15"
    using fifteen by simp
  have each: "\<forall>c\<in>set [0..<9]. c < 9 \<and> length (?cols ! c) \<le> 3 \<and> 0 \<notin> set (?cols ! c)"
  proof (intro ballI conjI)
    fix c assume "c \<in> set [0..<9]"
    then show c: "c < 9" by simp
    from c columns show "length (?cols ! c) \<le> 3"
      by (simp add: nth_columnsOf atMostThreeInRanges_def list_all_iff)
    from c positive show "0 \<notin> set (?cols ! c)"
      by (auto simp: nth_columnsOf)
  qed
  have len: "0 + length (concat (map (\<lambda>c. ?cols ! c) [0..<9])) \<le> 15"
    using total flat by simp
  have rows0: "\<forall>r<3. numbersInRow (emptyGrid :: rat grid) r = roundRobin 0 ! r"
    by (auto simp: emptyGrid_rows roundRobin_0 dest!: below_3)
  have cells0: "\<forall>c\<in>set [0..<9]. \<forall>r<3. (emptyGrid :: rat grid) ! r ! c = 0"
    by (simp add: emptyGrid_cells)
  have step: "\<And>(g :: rat grid) k n col. k < 15 \<Longrightarrow> g ! (k mod 3) ! col = 0 \<Longrightarrow>
      layoutNumber (g, roundRobin k) (n, col)
        = (g[k mod 3 := (g ! (k mod 3))[col := n]], roundRobin (Suc k))"
    by (rule layoutNumber_roundRobin)
  from place_columns [of layoutNumber, OF step emptyGrid_shape distinct_upt each len rows0 cells0]
  obtain g where g:
    "foldl layoutNumber (emptyGrid, roundRobin 0) (concat (map (columnBlock ?cols) [0..<9]))
       = (g, roundRobin (0 + length (concat (map (\<lambda>c. ?cols ! c) [0..<9]))))"
    "gridShape g"
    "\<forall>r<3. numbersInRow g r = roundRobin (0 + length (concat (map (\<lambda>c. ?cols ! c) [0..<9]))) ! r"
    "mset (nonEmpty (concat g))
       = mset (nonEmpty (concat (emptyGrid :: rat grid))) + mset (concat (map (\<lambda>c. ?cols ! c) [0..<9]))"
    "foldl layoutNumber (emptyGrid, roundRobin 0) (concat (map (columnBlock ?cols) [0..<9]))
       = foldl dealNumber (emptyGrid, roundRobin 0) (concat (map (columnBlock ?cols) [0..<9]))"
    by blast
  from place_columns [of placeNumber, OF placeNumber_roundRobin emptyGrid_shape distinct_upt
      each len rows0 cells0]
  have same: "foldl placeNumber (emptyGrid, roundRobin 0) (concat (map (columnBlock ?cols) [0..<9]))
       = foldl dealNumber (emptyGrid, roundRobin 0) (concat (map (columnBlock ?cols) [0..<9]))"
    by blast
  have fifteen': "0 + length (concat (map (\<lambda>c. ?cols ! c) [0..<9])) = 15"
    using total flat by simp
  have lg: "layoutGrid nums = g"
    using g(1) by (simp add: layoutGrid_def groupedColumns_blocks roundRobin_0)
  show "gridShape (layoutGrid nums)"
    using g(2) lg by simp
  show "fivePerRow (layoutGrid nums)"
    using g(3) unfolding fifteen' roundRobin_15 lg
    by (auto simp: fivePerRow_def list_all_iff dest!: below_3)
  show "mset (nonEmpty (concat (layoutGrid nums))) = mset nums"
    using g(4) unfolding flat emptyGrid_nonEmpty lg mset_cols by simp
  show "layoutGrid nums
       = fst (foldl placeNumber (emptyGrid, [0, 0, 0]) (groupedColumns (numbersbyColumn nums)))"
    using same g(5) by (simp add: layoutGrid_def groupedColumns_blocks roundRobin_0)
qed

text \<open>
  Claim C5, amended. Take a stored list whose positive entries are fifteen numbers, each in
  one of the nine column ranges and at most three in any one range. The grid that
  \<^verbatim>\<open>analyzeTicket\<close> lays out does not depend on the random source; it has five numbers in each
  row, its non-empty cells are exactly the fifteen numbers, and it is the grid that the
  generator's placement rule gives for the same sorted groups.
\<close>

theorem reconstruction_places_input_numbers:
  assumes "length (positiveNumbers ticketNumbers) = 15"
    and "atMostThreeInRanges (positiveNumbers ticketNumbers)"
    and "allInRanges (positiveNumbers ticketNumbers)"
  shows "analyzeTicketGrid rnd ticketNumbers = Some (layoutGrid (positiveNumbers ticketNumbers)) \<and>
         gridShape (layoutGrid (positiveNumbers ticketNumbers)) \<and>
         fivePerRow (layoutGrid (positiveNumbers ticketNumbers)) \<and>
         mset (nonEmpty (concat (layoutGrid (positiveNumbers ticketNumbers))))
           = mset (positiveNumbers ticketNumbers) \<and>
         layoutGrid (positiveNumbers ticketNumbers)
           = fst (foldl placeNumber (emptyGrid, [0, 0, 0])
                   (groupedColumns (numbersbyColumn (positiveNumbers ticketNumbers))))"
proof -
  let ?nums = "positiveNumbers ticketNumbers"
  have positive: "\<forall>num\<in>set ?nums. 0 < num"
    by (simp add: positiveNumbers_def)
  have "\<not> hasColumnOverflow ?nums"
  proof
    assume "hasColumnOverflow ?nums"
    then obtain col where col: "col < 9" "3 < length (filter (\<lambda>num. inColumn num col) ?nums)"
      unfolding hasColumnOverflow_iff by blast
    from col(1) have "col \<in> set [0..<9]" by simp
    with assms(2) have "length (filter (\<lambda>num. inColumn num col) ?nums) \<le> 3"
      unfolding atMostThreeInRanges_def list_all_iff by blast
    with col(2) show False by simp
  qed
  then have "analyzeTicketGrid rnd ticketNumbers = Some (layoutGrid ?nums)"
    using assms(1) by (simp add: analyzeTicketGrid_def Let_def)
  with layoutGrid_fills [OF assms positive] show ?thesis
    by simp
qed

lemma storedList_positive:
  "positiveNumbers storedList = [70, 1, 6, 10, 19, 20, 29, 30, 39, 40, 49, 50, 59, 60, 69]"
  by (simp add: positiveNumbers_def storedList_def)

lemma storedList_columns: "atMostThreeInRanges (positiveNumbers storedList)"
  unfolding storedList_positive by code_simp

lemma storedList_ranges: "allInRanges (positiveNumbers storedList)"
  unfolding storedList_positive by code_simp

theorem reconstruction_places_input_numbers_witness:
  "length (positiveNumbers storedList) = 15 \<and>
   atMostThreeInRanges (positiveNumbers storedList) \<and>
   allInRanges (positiveNumbers storedList) \<and>
   analyzeTicketGrid (\<lambda>k. 1 / 2) storedList = Some (layoutGrid (positiveNumbers storedList)) \<and>
   fivePerRow (layoutGrid (positiveNumbers storedList)) \<and>
   mset (nonEmpty (concat (layoutGrid (positiveNumbers storedList))))
     = mset (positiveNumbers storedList)"
proof -
  have len: "length (positiveNumbers storedList) = 15"
    by (simp add: storedList_positive)
  from reconstruction_places_input_numbers [OF len storedList_columns storedList_ranges,
      of "\<lambda>k. 1 / 2"] len storedList_columns storedList_ranges
  show ?thesis by blast
qed

text \<open>
  The claim as stated, for every list of fifteen numbers with at most three in each column
  range, fails at a list that holds 95: the number is in no range, is not grouped, and the
  grid holds fourteen numbers.
\<close>

lemma outOfRange_grid: "analyzeTicketGrid (\<lambda>k. 1 / 2) outOfRangeList = Some outOfRangeGrid"
  by code_simp

lemma outOfRange_columns: "atMostThreeInRanges (positiveNumbers outOfRangeList)"
  by code_simp

theorem reconstruction_drops_number_counterexample:
  "length (positiveNumbers outOfRangeList) = 15 \<and>
   atMostThreeInRanges (positiveNumbers outOfRangeList) \<and>
   analyzeTicketGrid (\<lambda>k. 1 / 2) outOfRangeList = Some outOfRangeGrid \<and>
   mset (nonEmpty (concat outOfRangeGrid)) \<noteq> mset (positiveNumbers outOfRangeList)"
proof -
  have "95 \<in> set (positiveNumbers outOfRangeList)"
    by (simp add: positiveNumbers_def outOfRangeList_def)
  moreover have "95 \<notin> set (nonEmpty (concat outOfRangeGrid))"
    by (simp add: outOfRangeGrid_def nonEmpty_def)
  ultimately have "mset (nonEmpty (concat outOfRangeGrid)) \<noteq> mset (positiveNumbers outOfRangeList)"
    by (metis set_mset_mset)
  moreover have "length (positiveNumbers outOfRangeList) = 15"
    by (simp add: positiveNumbers_def outOfRangeList_def)
  ultimately show ?thesis
    using outOfRange_grid outOfRange_columns by simp
qed

subsection \<open>convertFlatToGrid and the length of its input\<close>

text \<open>
  Claim C10. For an input whose length is not 15, \<^verbatim>\<open>convertFlatToGrid\<close> throws the error
  \<^verbatim>\<open>Expected 15 numbers, got <length>\<close>, whatever the random source would deliver: the
  generator is not run, so neither its random draws nor its own failures can show in the
  result. The generator runs only behind the length check.
\<close>

theorem convertFlatToGrid_rejects_other_lengths:
  "length flatList \<noteq> 15 \<Longrightarrow>
   convertFlatToGrid rnd flatList
     = Some (Inl (Error (''Expected 15 numbers, got '' @ showNat (length flatList))))"
  by (simp add: convertFlatToGrid_def)

theorem convertFlatToGrid_rejects_other_lengths_witness:
  "length [1, 2, 3 :: int] \<noteq> 15 \<and>
   convertFlatToGrid (\<lambda>k. 1 / 2) [1, 2, 3 :: int]
     = Some (Inl (Error ''Expected 15 numbers, got 3''))"
  using convertFlatToGrid_rejects_other_lengths [of "[1, 2, 3 :: int]" "\<lambda>k. 1 / 2"]
  by (simp add: showNat.simps digitChar_def)

end
